theory Spec2Isabelle
  imports Complex_Main "HOL-Library.Word"
begin

unbundle bit_operations_syntax

section \<open>The gain filter of \<^verbatim>\<open>audio_filter.cpp\<close>\<close>

text \<open>
  The repository is one function:
  \<^verbatim>\<open>
  void apply_gain(short* samples, size_t length, float gain) {
      for (size_t i = 0; i < length; ++i) {
          int sample = static_cast<int>(samples[i] * gain);
          if (sample > 32767) sample = 32767;
          if (sample < -32768) sample = -32768;
          samples[i] = static_cast<short>(sample);
      }
  }
  \<close>
  A \<^verbatim>\<open>short\<close> is a \<^typ>\<open>16 word\<close> read with \<^const>\<open>sint\<close>, an \<^verbatim>\<open>int\<close> is a
  mathematical integer together with the check that it fits 32 bits, a \<^verbatim>\<open>float\<close> is
  the 32-bit pattern of IEEE-754 binary32. The two operations of the language whose
  behaviour is undefined (an access outside the storage the pointer designates, and
  a conversion from floating point to \<^verbatim>\<open>int\<close> whose truncated value does not fit)
  are results of their own.
\<close>

datatype error = OutOfBounds | FloatToIntOverflow

subsection \<open>binary32\<close>

text \<open>
  An unpacked binary32 value: a finite number \<open>(-1)\<^sup>s \<sqdot> m \<sqdot> 2\<^sup>e\<close>, an infinity or a NaN.
\<close>

datatype fval = FFinite bool nat int | FInf bool | FNaN

definition f32_sign :: "32 word \<Rightarrow> bool" where
  "f32_sign w = bit w 31"

definition f32_expo :: "32 word \<Rightarrow> nat" where
  "f32_expo w = unat (drop_bit 23 w AND 0xFF)"

definition f32_frac :: "32 word \<Rightarrow> nat" where
  "f32_frac w = unat (w AND 0x7FFFFF)"

definition f32_decode :: "32 word \<Rightarrow> fval" where
  "f32_decode w =
     (if f32_expo w = 255 then (if f32_frac w = 0 then FInf (f32_sign w) else FNaN)
      else if f32_expo w = 0 then FFinite (f32_sign w) (f32_frac w) (- 149)
      else FFinite (f32_sign w) (2 ^ 23 + f32_frac w) (int (f32_expo w) - 150))"

definition f32_is_finite :: "32 word \<Rightarrow> bool" where
  "f32_is_finite w = (f32_expo w \<noteq> 255)"

text \<open>The number of binary digits of a natural number.\<close>

fun bit_length :: "nat \<Rightarrow> nat" where
  "bit_length n = (if n = 0 then 0 else Suc (bit_length (n div 2)))"

declare bit_length.simps [simp del]

text \<open>
  Rounding of the exact value \<open>n \<sqdot> 2\<^sup>e\<close> to binary32, to nearest with ties to even (the
  default rounding mode, which the program never changes): \<open>q\<close> is the exponent of the
  last place that binary32 keeps for a number of this size (24 significant digits, and no
  place below \<open>2\<^sup>-\<^sup>1\<^sup>4\<^sup>9\<close>); a result of \<open>2\<^sup>1\<^sup>2\<^sup>8\<close> or more is an infinity.
\<close>

definition round_exponent :: "nat \<Rightarrow> int \<Rightarrow> int" where
  "round_exponent n e = max (e + int (bit_length n) - 24) (- 149)"

definition round_significand :: "nat \<Rightarrow> int \<Rightarrow> int \<Rightarrow> nat" where
  "round_significand n e q =
     (if q \<le> e then n * 2 ^ nat (e - q)
      else let sh = nat (q - e);
               t = n div 2 ^ sh;
               r = n mod 2 ^ sh;
               half = 2 ^ (sh - 1)
           in if half < r \<or> (r = half \<and> odd t) then t + 1 else t)"

definition f32_round :: "bool \<Rightarrow> nat \<Rightarrow> int \<Rightarrow> fval" where
  "f32_round sg n e =
     (let q = round_exponent n e;
          m = round_significand n e q
      in if 104 \<le> q \<and> 2 ^ 24 \<le> m * 2 ^ nat (q - 104) then FInf sg else FFinite sg m q)"

text \<open>Conversion of an \<^verbatim>\<open>int\<close> to \<^verbatim>\<open>float\<close> (the promoted sample, before the product).\<close>

definition int_to_f32 :: "int \<Rightarrow> fval" where
  "int_to_f32 i = f32_round (i < 0) (nat \<bar>i\<bar>) 0"

text \<open>The product of two binary32 values.\<close>

fun f32_mul :: "fval \<Rightarrow> fval \<Rightarrow> fval" where
  "f32_mul FNaN _ = FNaN"
| "f32_mul _ FNaN = FNaN"
| "f32_mul (FInf a) (FInf b) = FInf (a \<noteq> b)"
| "f32_mul (FInf a) (FFinite b m e) = (if m = 0 then FNaN else FInf (a \<noteq> b))"
| "f32_mul (FFinite a m e) (FInf b) = (if m = 0 then FNaN else FInf (a \<noteq> b))"
| "f32_mul (FFinite a m1 e1) (FFinite b m2 e2) = f32_round (a \<noteq> b) (m1 * m2) (e1 + e2)"

text \<open>The integer part of \<open>m \<sqdot> 2\<^sup>e\<close>.\<close>

definition trunc_mag :: "nat \<Rightarrow> int \<Rightarrow> nat" where
  "trunc_mag m e = (if 0 \<le> e then m * 2 ^ nat e else m div 2 ^ nat (- e))"

text \<open>
  \<^verbatim>\<open>static_cast<int>\<close> of a \<^verbatim>\<open>float\<close>: the fractional part is discarded; the behaviour
  is undefined when the truncated value is not an \<^verbatim>\<open>int\<close> (also for infinities and NaN).
\<close>

fun f32_to_int :: "fval \<Rightarrow> error + int" where
  "f32_to_int (FFinite sg m e) =
     (let t = int (trunc_mag m e);
          v = (if sg then - t else t)
      in if - 2147483648 \<le> v \<and> v \<le> 2147483647 then Inr v else Inl FloatToIntOverflow)"
| "f32_to_int (FInf sg) = Inl FloatToIntOverflow"
| "f32_to_int FNaN = Inl FloatToIntOverflow"

subsection \<open>One sample\<close>

text \<open>The two \<^verbatim>\<open>if\<close> statements of the loop body, in their order.\<close>

definition clamp16 :: "int \<Rightarrow> int" where
  "clamp16 sample =
     (let sample1 = (if sample > 32767 then 32767 else sample);
          sample2 = (if sample1 < - 32768 then - 32768 else sample1)
      in sample2)"

text \<open>\<^verbatim>\<open>samples[i] * gain\<close>: the sample is promoted to \<^verbatim>\<open>int\<close>, converted and multiplied.\<close>

definition product32 :: "16 word \<Rightarrow> 32 word \<Rightarrow> fval" where
  "product32 s gain = f32_mul (int_to_f32 (sint s)) (f32_decode gain)"

text \<open>
  The value of one sample after the body: the \<^verbatim>\<open>int\<close> called \<^verbatim>\<open>sample\<close> in the source,
  after both \<^verbatim>\<open>if\<close> statements.
\<close>

definition scaled_int :: "16 word \<Rightarrow> 32 word \<Rightarrow> error + int" where
  "scaled_int s gain =
     (case f32_to_int (product32 s gain) of
        Inl err \<Rightarrow> Inl err
      | Inr sample \<Rightarrow> Inr (clamp16 sample))"

text \<open>\<^verbatim>\<open>static_cast<short>\<close> keeps the low 16 bits.\<close>

definition scale_sample :: "16 word \<Rightarrow> 32 word \<Rightarrow> error + 16 word" where
  "scale_sample s gain =
     (case scaled_int s gain of
        Inl err \<Rightarrow> Inl err
      | Inr sample \<Rightarrow> Inr (word_of_int sample))"

subsection \<open>The buffer and the loop\<close>

text \<open>
  The storage that \<^verbatim>\<open>short*\<close> pointers designate: a partial map from addresses (counted
  in elements) to 16-bit values. An address outside its domain is not part of any object,
  and reading or writing it is undefined behaviour.
\<close>

type_synonym heap = "nat \<Rightarrow> 16 word option"

text \<open>One execution of the loop body at index \<open>i\<close>.\<close>

definition body :: "nat \<Rightarrow> 32 word \<Rightarrow> nat \<Rightarrow> heap \<Rightarrow> error + heap" where
  "body samples gain i h =
     (case h (samples + i) of
        None \<Rightarrow> Inl OutOfBounds
      | Some s \<Rightarrow>
          (case scale_sample s gain of
             Inl err \<Rightarrow> Inl err
           | Inr s' \<Rightarrow> Inr (h(samples + i \<mapsto> s'))))"

text \<open>
  The \<^verbatim>\<open>for\<close> loop from the current value of \<open>i\<close>; it returns the final value of \<open>i\<close>
  with the storage. The counter is a \<^verbatim>\<open>size_t\<close>; it is incremented only while it is
  below \<open>len\<close>, so it never wraps and is modelled by a natural number.
\<close>

function loop :: "nat \<Rightarrow> nat \<Rightarrow> 32 word \<Rightarrow> nat \<Rightarrow> heap \<Rightarrow> error + nat \<times> heap" where
  "loop samples len gain i h =
     (if i < len then
        (case body samples gain i h of
           Inl err \<Rightarrow> Inl err
         | Inr h' \<Rightarrow> loop samples len gain (i + 1) h')
      else Inr (i, h))"
  by pat_completeness auto
termination
  by (relation "measure (\<lambda>(samples, len, gain, i, h). len - i)") auto

declare loop.simps [simp del]

definition apply_gain :: "nat \<Rightarrow> nat \<Rightarrow> 32 word \<Rightarrow> heap \<Rightarrow> error + heap" where
  "apply_gain samples len gain h =
     (case loop samples len gain 0 h of
        Inl err \<Rightarrow> Inl err
      | Inr (i, h') \<Rightarrow> Inr h')"

text \<open>A buffer with the given contents at address \<open>samples\<close>, and nothing else.\<close>

definition heap_of :: "nat \<Rightarrow> 16 word list \<Rightarrow> heap" where
  "heap_of samples xs =
     (\<lambda>a. if samples \<le> a \<and> a < samples + length xs then Some (xs ! (a - samples)) else None)"

text \<open>\<open>n\<close> iterations of the body in a row, from index \<open>i\<close>, stopping at undefined behaviour.\<close>

primrec iterate_body :: "nat \<Rightarrow> nat \<Rightarrow> 32 word \<Rightarrow> nat \<Rightarrow> heap \<Rightarrow> error + nat \<times> heap" where
  "iterate_body 0 samples gain i h = Inr (i, h)"
| "iterate_body (Suc n) samples gain i h =
     (case body samples gain i h of
        Inl err \<Rightarrow> Inl err
      | Inr h' \<Rightarrow> iterate_body n samples gain (i + 1) h')"

subsection \<open>Exact values\<close>

text \<open>The real number \<open>(-1)\<^sup>s \<sqdot> m \<sqdot> 2\<^sup>e\<close>.\<close>

definition mag_value :: "nat \<Rightarrow> int \<Rightarrow> real" where
  "mag_value m e = of_nat m * 2 powi e"

definition finite_value :: "bool \<Rightarrow> nat \<Rightarrow> int \<Rightarrow> real" where
  "finite_value sg m e = (if sg then - mag_value m e else mag_value m e)"

text \<open>The real number a finite binary32 pattern stands for.\<close>

definition f32_value :: "32 word \<Rightarrow> real" where
  "f32_value w =
     (if f32_expo w = 0 then finite_value (f32_sign w) (f32_frac w) (- 149)
      else finite_value (f32_sign w) (2 ^ 23 + f32_frac w) (int (f32_expo w) - 150))"

text \<open>The product of a sample and a gain, without rounding.\<close>

definition exact_product :: "16 word \<Rightarrow> 32 word \<Rightarrow> real" where
  "exact_product s gain = of_int (sint s) * f32_value gain"

definition truncate_toward_zero :: "real \<Rightarrow> int" where
  "truncate_toward_zero x = (if 0 \<le> x then \<lfloor>x\<rfloor> else \<lceil>x\<rceil>)"

subsection \<open>The loop on a given processor\<close>

text \<open>
  Where the language leaves the conversion to \<^verbatim>\<open>int\<close> undefined, the compiled function still
  executes a conversion instruction, which delivers some 32-bit value \<open>u x\<close> for the operand
  \<open>x\<close>, and goes on. The function below is the same loop with this value in the place of
  the undefined conversion; everything else is as above, and an access outside the storage
  remains an error.
\<close>

definition f32_to_int_on :: "(fval \<Rightarrow> 32 word) \<Rightarrow> fval \<Rightarrow> int" where
  "f32_to_int_on u x = (case f32_to_int x of Inl err \<Rightarrow> sint (u x) | Inr v \<Rightarrow> v)"

definition scale_sample_on :: "(fval \<Rightarrow> 32 word) \<Rightarrow> 16 word \<Rightarrow> 32 word \<Rightarrow> 16 word" where
  "scale_sample_on u s gain = word_of_int (clamp16 (f32_to_int_on u (product32 s gain)))"

definition body_on :: "(fval \<Rightarrow> 32 word) \<Rightarrow> nat \<Rightarrow> 32 word \<Rightarrow> nat \<Rightarrow> heap \<Rightarrow> error + heap" where
  "body_on u samples gain i h =
     (case h (samples + i) of
        None \<Rightarrow> Inl OutOfBounds
      | Some s \<Rightarrow> Inr (h(samples + i \<mapsto> scale_sample_on u s gain)))"

function loop_on ::
  "(fval \<Rightarrow> 32 word) \<Rightarrow> nat \<Rightarrow> nat \<Rightarrow> 32 word \<Rightarrow> nat \<Rightarrow> heap \<Rightarrow> error + nat \<times> heap" where
  "loop_on u samples len gain i h =
     (if i < len then
        (case body_on u samples gain i h of
           Inl err \<Rightarrow> Inl err
         | Inr h' \<Rightarrow> loop_on u samples len gain (i + 1) h')
      else Inr (i, h))"
  by pat_completeness auto
termination
  by (relation "measure (\<lambda>(u, samples, len, gain, i, h). len - i)") auto

declare loop_on.simps [simp del]

primrec iterate_body_on ::
  "(fval \<Rightarrow> 32 word) \<Rightarrow> nat \<Rightarrow> nat \<Rightarrow> 32 word \<Rightarrow> nat \<Rightarrow> heap \<Rightarrow> error + nat \<times> heap" where
  "iterate_body_on u 0 samples gain i h = Inr (i, h)"
| "iterate_body_on u (Suc n) samples gain i h =
     (case body_on u samples gain i h of
        Inl err \<Rightarrow> Inl err
      | Inr h' \<Rightarrow> iterate_body_on u n samples gain (i + 1) h')"

text \<open>
  The x86 instruction \<^verbatim>\<open>cvttss2si\<close> delivers the pattern \<open>0x80000000\<close> (the integer
  indefinite, \<open>-2\<^sup>3\<^sup>1\<close>) for every operand outside the range.
\<close>

definition cvttss2si_indefinite :: "fval \<Rightarrow> 32 word" where
  "cvttss2si_indefinite x = 0x80000000"

section \<open>Binary digits, integer parts and rounding\<close>

lemma bit_length_0 [simp]: "bit_length 0 = 0"
  by (simp add: bit_length.simps)

lemma bit_length_upper: "n < 2 ^ bit_length n"
proof (induction n rule: bit_length.induct)
  case (1 n)
  show ?case
  proof (cases "n = 0")
    case True
    then show ?thesis by simp
  next
    case False
    with 1 have "n div 2 < 2 ^ bit_length (n div 2)" by simp
    then have "n < 2 * 2 ^ bit_length (n div 2)" by linarith
    with False show ?thesis by (subst bit_length.simps) simp
  qed
qed

lemma bit_length_lower: "0 < n \<Longrightarrow> 2 ^ (bit_length n - 1) \<le> n"
proof (induction n rule: bit_length.induct)
  case (1 n)
  show ?case
  proof (cases "n div 2 = 0")
    case True
    with 1 have "n = 1" by (simp add: div_eq_0_iff) 
    then show ?thesis by (simp add: bit_length.simps)
  next
    case False
    with 1 have ih: "2 ^ (bit_length (n div 2) - 1) \<le> n div 2" by simp
    from False have pos: "0 < bit_length (n div 2)"
      by (subst bit_length.simps) simp
    have "bit_length n = Suc (bit_length (n div 2))"
      using 1(2) by (subst bit_length.simps) simp
    then have "(2::nat) ^ (bit_length n - 1) = 2 * 2 ^ (bit_length (n div 2) - 1)"
      using pos by (cases "bit_length (n div 2)") simp_all
    with ih show ?thesis by linarith
  qed
qed

lemma bit_length_le: "n < 2 ^ k \<Longrightarrow> bit_length n \<le> k"
proof (rule ccontr)
  assume a: "n < 2 ^ k" and b: "\<not> bit_length n \<le> k"
  then have k: "k \<le> bit_length n - 1" by simp
  from b have "0 < n" by (cases "n = 0") simp_all
  then have "2 ^ (bit_length n - 1) \<le> n" by (rule bit_length_lower)
  moreover have "(2::nat) ^ k \<le> 2 ^ (bit_length n - 1)"
    using k by (simp add: power_increasing)
  ultimately show False using a by linarith
qed

lemma trunc_mag_floor: "int (trunc_mag m e) = \<lfloor>mag_value m e\<rfloor>"
proof (cases "0 \<le> e")
  case True
  have "mag_value m e = of_nat (m * 2 ^ nat e)"
    using True by (simp add: mag_value_def power_int_def)
  then show ?thesis using True by (simp add: trunc_mag_def del: of_nat_mult of_nat_power)
next
  case False
  have "mag_value m e = of_nat m / of_nat (2 ^ nat (- e))"
    using False by (simp add: mag_value_def power_int_def field_simps)
  then have "\<lfloor>mag_value m e\<rfloor> = int (m div 2 ^ nat (- e))"
    by (simp only: floor_divide_of_nat_eq)
  then show ?thesis using False by (simp add: trunc_mag_def)
qed

lemma mag_value_nonneg: "0 \<le> mag_value m e"
  by (simp add: mag_value_def)

lemma mag_value_mult: "mag_value (m1 * m2) (e1 + e2) = mag_value m1 e1 * mag_value m2 e2"
  by (simp add: mag_value_def power_int_add)

lemma round_significand_exact: "q \<le> e \<Longrightarrow> round_significand n e q = n * 2 ^ nat (e - q)"
  by (simp add: round_significand_def)

lemma round_significand_bounds:
  "e < q \<Longrightarrow> n div 2 ^ nat (q - e) \<le> round_significand n e q
     \<and> round_significand n e q \<le> n div 2 ^ nat (q - e) + 1"
  by (simp add: round_significand_def Let_def)

lemma round_significand_dvd:
  assumes "e < q" "n mod 2 ^ nat (q - e) = 0"
  shows "round_significand n e q = n div 2 ^ nat (q - e)"
proof -
  have "(0::nat) < 2 ^ (nat (q - e) - 1)" by simp
  then have "(2::nat) ^ (nat (q - e) - 1) \<noteq> 0" by simp
  with assms show ?thesis
    by (simp add: round_significand_def Let_def)
qed

lemma f32_round_finiteD:
  assumes "f32_round sg n e = FFinite sg' m q"
  shows "sg' = sg" and "q = round_exponent n e" and "m = round_significand n e q"
proof -
  from assms have "sg' = sg \<and> q = round_exponent n e \<and> m = round_significand n e (round_exponent n e)"
    unfolding f32_round_def Let_def by (auto split: if_splits)
  then show "sg' = sg" and "q = round_exponent n e" and "m = round_significand n e q"
    by simp_all
qed

lemma f32_round_not_NaN: "f32_round sg n e \<noteq> FNaN"
  unfolding f32_round_def Let_def by simp

lemma f32_round_InfD: "f32_round sg n e = FInf sg' \<Longrightarrow> 104 \<le> round_exponent n e"
  unfolding f32_round_def Let_def by (simp split: if_splits)

lemma f32_round_small:
  "round_exponent n e < 104 \<Longrightarrow>
   f32_round sg n e = FFinite sg (round_significand n e (round_exponent n e)) (round_exponent n e)"
  unfolding f32_round_def Let_def by simp

lemma trunc_mag_nonpos: "q \<le> 0 \<Longrightarrow> trunc_mag m q = m div 2 ^ nat (- q)"
  by (cases "q = 0") (simp_all add: trunc_mag_def)

text \<open>Scaling to a finer last place does not change the integer part.\<close>

lemma trunc_mag_scale:
  assumes "q \<le> e"
  shows "trunc_mag (n * 2 ^ nat (e - q)) q = trunc_mag n e"
proof -
  consider "0 \<le> q" | "q < 0" "0 \<le> e" | "q < 0" "e < 0" by linarith
  then show ?thesis
  proof cases
    case 1
    with assms have "nat e = nat (e - q) + nat q" by simp
    then show ?thesis using 1 assms by (simp add: trunc_mag_def power_add)
  next
    case 2
    then have "nat (e - q) = nat e + nat (- q)" by simp
    then show ?thesis using 2 by (simp add: trunc_mag_def power_add)
  next
    case 3
    with assms have "nat (- q) = nat (e - q) + nat (- e)" by simp
    then show ?thesis using 3 by (simp add: trunc_mag_def power_add)
  qed
qed

lemma trunc_mag_coarse:
  assumes "e < q" "q \<le> 0"
  shows "trunc_mag (n div 2 ^ nat (q - e)) q = trunc_mag n e"
proof -
  from assms have "nat (- e) = nat (q - e) + nat (- q)" by simp
  then have "n div 2 ^ nat (- e) = n div 2 ^ nat (q - e) div 2 ^ nat (- q)"
    by (simp add: power_add div_mult2_eq)
  with assms show ?thesis by (simp add: trunc_mag_nonpos)
qed

lemma trunc_mag_mono: "m \<le> m' \<Longrightarrow> trunc_mag m q \<le> trunc_mag m' q"
  by (simp add: trunc_mag_def div_le_mono)

text \<open>Above \<open>2\<^sup>2\<^sup>4\<close> the rounded significand has 24 digits.\<close>

lemma f32_round_large:
  assumes r: "f32_round sg n e = FFinite sg' m q" and "e < q" "0 < q"
  shows "2 ^ 23 \<le> m"
proof -
  let ?b = "bit_length n"
  from r have "q = round_exponent n e" by (rule f32_round_finiteD)
  then have q: "q = max (e + int ?b - 24) (- 149)" by (simp add: round_exponent_def)
  with assms have qe: "q - e = int ?b - 24" by linarith
  with assms have b: "24 < ?b" by linarith
  then have "0 < n" by (cases "n = 0") simp_all
  then have "2 ^ (?b - 1) \<le> n" by (rule bit_length_lower)
  moreover have "?b - 1 = 23 + nat (q - e)" using qe b by linarith
  ultimately have "2 ^ 23 * 2 ^ nat (q - e) \<le> n" by (simp add: power_add)
  then have "2 ^ 23 \<le> n div 2 ^ nat (q - e)"
    by (simp add: less_eq_div_iff_mult_less_eq)
  moreover from r assms have "n div 2 ^ nat (q - e) \<le> m"
    using f32_round_finiteD(3) round_significand_bounds by blast
  ultimately show ?thesis by linarith
qed

text \<open>Rounding never takes the integer part below that of the exact value, up to \<open>2\<^sup>2\<^sup>3\<close>.\<close>

lemma f32_round_trunc_lower:
  assumes r: "f32_round sg n e = FFinite sg' m q"
  shows "trunc_mag n e \<le> trunc_mag m q \<or> 2 ^ 23 \<le> trunc_mag m q"
proof -
  consider "q \<le> e" | "e < q" "q \<le> 0" | "e < q" "0 < q" by linarith
  then show ?thesis
  proof cases
    case 1
    with r have "m = n * 2 ^ nat (e - q)"
      using f32_round_finiteD(3) round_significand_exact by blast
    with 1 show ?thesis by (simp add: trunc_mag_scale)
  next
    case 2
    with r have "n div 2 ^ nat (q - e) \<le> m"
      using f32_round_finiteD(3) round_significand_bounds by blast
    then have "trunc_mag (n div 2 ^ nat (q - e)) q \<le> trunc_mag m q" by (rule trunc_mag_mono)
    with 2 show ?thesis by (simp add: trunc_mag_coarse)
  next
    case 3
    with r have "2 ^ 23 \<le> m" by (rule f32_round_large)
    moreover have "m \<le> trunc_mag m q" using 3 by (simp add: trunc_mag_def)
    ultimately show ?thesis by linarith
  qed
qed

section \<open>Rounding of bounded values\<close>

lemma mag_value_le_nat:
  assumes "e \<le> 0"
  shows "mag_value n e \<le> of_nat K \<longleftrightarrow> n \<le> K * 2 ^ nat (- e)"
proof -
  have "mag_value n e = of_nat n / 2 ^ nat (- e)"
    using assms by (cases "e = 0") (simp_all add: mag_value_def power_int_def field_simps)
  then have "mag_value n e \<le> of_nat K \<longleftrightarrow> (of_nat n :: real) \<le> of_nat K * 2 ^ nat (- e)"
    by (simp add: pos_divide_le_eq)
  also have "\<dots> \<longleftrightarrow> (of_nat n :: real) \<le> of_nat (K * 2 ^ nat (- e))" by simp
  also have "\<dots> \<longleftrightarrow> n \<le> K * 2 ^ nat (- e)" by (simp only: of_nat_le_iff)
  finally show ?thesis .
qed

lemma mag_value_ge_pow:
  assumes "0 < n"
  shows "2 powi (int (bit_length n) - 1 + e) \<le> mag_value n e"
proof -
  define c where "c = bit_length n - 1"
  from assms have "0 < bit_length n" by (subst bit_length.simps) simp
  then have b: "int (bit_length n) - 1 = int c" unfolding c_def by linarith
  from assms have "2 ^ c \<le> n" unfolding c_def by (rule bit_length_lower)
  then have "(of_nat (2 ^ c) :: real) \<le> of_nat n" by (simp only: of_nat_le_iff)
  then have "(2::real) ^ c \<le> of_nat n" by simp
  then have "(2::real) powi int c \<le> of_nat n" by (simp only: power_int_of_nat)
  moreover have "(0::real) \<le> 2 powi e" by simp
  ultimately have "(2::real) powi int c * 2 powi e \<le> of_nat n * 2 powi e"
    by (rule mult_right_mono)
  moreover have "(2::real) powi (int c + e) = 2 powi int c * 2 powi e"
    by (rule power_int_add) simp
  ultimately show ?thesis unfolding mag_value_def b by simp
qed

lemma round_exponent_small:
  assumes K: "K < 2 ^ 24" and le: "mag_value n e \<le> of_nat K" and pos: "0 < n"
  shows "round_exponent n e \<le> 0"
proof (rule ccontr)
  assume "\<not> round_exponent n e \<le> 0"
  then have big: "24 \<le> int (bit_length n) - 1 + e" by (simp add: round_exponent_def)
  have "(2::real) ^ 24 = 2 powi 24" by simp
  also have "\<dots> \<le> 2 powi (int (bit_length n) - 1 + e)"
    using big by (intro power_int_increasing) simp_all
  also have "\<dots> \<le> mag_value n e" using pos by (rule mag_value_ge_pow)
  also have "\<dots> \<le> of_nat K" by (rule le)
  finally have "(of_nat (2 ^ 24) :: real) \<le> of_nat K" by simp
  then have "2 ^ 24 \<le> K" by (simp only: of_nat_le_iff)
  with K show False by simp
qed

lemma trunc_mag_0 [simp]: "trunc_mag 0 q = 0"
  by (simp add: trunc_mag_def)

lemma round_significand_zero: "round_significand 0 e q = 0"
  by (simp add: round_significand_def Let_def)

lemma f32_round_zero: "f32_round sg 0 e = FFinite sg 0 (round_exponent 0 e)"
  unfolding f32_round_def Let_def by (simp add: round_significand_zero)

lemma div_succ_le: "(t + 1) div (2::nat) ^ k \<le> t div 2 ^ k + 1"
proof -
  have "t + 1 \<le> t + 2 ^ k" by simp
  then have "(t + 1) div 2 ^ k \<le> (t + 2 ^ k) div 2 ^ k" by (rule div_le_mono)
  then show ?thesis by simp
qed

text \<open>
  A value that does not exceed an integer below \<open>2\<^sup>2\<^sup>4\<close> rounds to a finite value that does
  not exceed it either, and whose integer part is that of the exact value or the next.
\<close>

lemma f32_round_bounded:
  assumes K: "K < 2 ^ 24" and le: "mag_value n e \<le> of_nat K"
  shows "\<exists>m q. f32_round sg n e = FFinite sg m q \<and> trunc_mag n e \<le> trunc_mag m q
           \<and> trunc_mag m q \<le> K \<and> trunc_mag m q \<le> trunc_mag n e + 1"
proof (cases "n = 0")
  case True
  then show ?thesis by (simp add: f32_round_zero)
next
  case False
  define q where "q = round_exponent n e"
  define m where "m = round_significand n e q"
  from False K le have q0: "q \<le> 0" unfolding q_def by (intro round_exponent_small) simp_all
  then have r: "f32_round sg n e = FFinite sg m q"
    unfolding q_def m_def by (intro f32_round_small) simp
  have fl: "trunc_mag n e \<le> K"
  proof -
    have "\<lfloor>mag_value n e\<rfloor> \<le> \<lfloor>(of_nat K :: real)\<rfloor>" using le by (rule floor_mono)
    then have "int (trunc_mag n e) \<le> int K" by (simp add: trunc_mag_floor)
    then show ?thesis by simp
  qed
  show ?thesis
  proof (cases "q \<le> e")
    case True
    then have "m = n * 2 ^ nat (e - q)" unfolding m_def by (rule round_significand_exact)
    with True have "trunc_mag m q = trunc_mag n e" by (simp add: trunc_mag_scale)
    with r fl show ?thesis by simp
  next
    case False
    then have eq: "e < q" by simp
    let ?sh = "nat (q - e)"
    let ?t = "n div 2 ^ ?sh"
    let ?a = "K * 2 ^ nat (- q)"
    from eq q0 have e0: "e \<le> 0" by simp
    have bounds: "?t \<le> m" "m \<le> ?t + 1"
      using round_significand_bounds [OF eq, of n] by (simp_all add: m_def)
    have t: "trunc_mag ?t q = trunc_mag n e" using eq q0 by (rule trunc_mag_coarse)
    have lower: "trunc_mag n e \<le> trunc_mag m q"
      using trunc_mag_mono [OF bounds(1), of q] t by simp
    have "nat (- e) = nat (- q) + ?sh" using eq q0 by simp
    then have "K * 2 ^ nat (- e) = ?a * 2 ^ ?sh" by (simp add: power_add)
    with le e0 have n: "n \<le> ?a * 2 ^ ?sh" by (simp add: mag_value_le_nat)
    then have "?t \<le> (?a * 2 ^ ?sh) div 2 ^ ?sh" by (rule div_le_mono)
    then have ta: "?t \<le> ?a" by simp
    have ma: "m \<le> ?a"
    proof (cases "?t = ?a")
      case True
      have "?t * 2 ^ ?sh \<le> n" by simp
      with True n have "n = ?a * 2 ^ ?sh" by simp
      then have "n mod 2 ^ ?sh = 0" by simp
      with eq have "m = ?t" unfolding m_def by (rule round_significand_dvd)
      with True show ?thesis by simp
    next
      case False
      with ta bounds show ?thesis by linarith
    qed
    have upper: "trunc_mag m q \<le> K"
    proof -
      have "m div 2 ^ nat (- q) \<le> ?a div 2 ^ nat (- q)" using ma by (rule div_le_mono)
      then show ?thesis using q0 by (simp add: trunc_mag_nonpos)
    qed
    have step: "trunc_mag m q \<le> trunc_mag n e + 1"
    proof -
      have "trunc_mag m q \<le> trunc_mag (?t + 1) q" using bounds(2) by (rule trunc_mag_mono)
      also have "\<dots> = (?t + 1) div 2 ^ nat (- q)" using q0 by (rule trunc_mag_nonpos)
      also have "\<dots> \<le> ?t div 2 ^ nat (- q) + 1" by (rule div_succ_le)
      also have "\<dots> = trunc_mag n e + 1" using t q0 by (simp add: trunc_mag_nonpos)
      finally show ?thesis .
    qed
    from r lower upper step show ?thesis by blast
  qed
qed

section \<open>One sample: ranges and exact values\<close>

lemma clamp16_range: "- 32768 \<le> clamp16 x \<and> clamp16 x \<le> 32767"
  by (simp add: clamp16_def Let_def)

lemma clamp16_id: "- 32768 \<le> x \<Longrightarrow> x \<le> 32767 \<Longrightarrow> clamp16 x = x"
  by (simp add: clamp16_def Let_def)

lemma clamp16_high: "32767 \<le> x \<Longrightarrow> clamp16 x = 32767"
  by (simp add: clamp16_def Let_def)

lemma clamp16_low: "x \<le> - 32768 \<Longrightarrow> clamp16 x = - 32768"
  by (simp add: clamp16_def Let_def)

lemma sint16_bounds: "- 32768 \<le> sint (s :: 16 word) \<and> sint s \<le> 32767"
  using sint_ge [of s] sint_lt [of s] by simp

lemma sint16_of_int: "- 32768 \<le> v \<Longrightarrow> v \<le> 32767 \<Longrightarrow> sint (word_of_int v :: 16 word) = v"
  by (simp add: sint_sbintrunc' signed_take_bit_int_eq_self)

lemma scaled_int_range: "scaled_int s g = Inr v \<Longrightarrow> - 32768 \<le> v \<and> v \<le> 32767"
  using clamp16_range by (auto simp: scaled_int_def split: sum.splits)

lemma scale_sample_sint: "scale_sample s g = Inr s' \<Longrightarrow> scaled_int s g = Inr (sint s')"
  using scaled_int_range sint16_of_int
  by (auto simp: scale_sample_def split: sum.splits)

lemma mag_value_scale:
  assumes "q \<le> e"
  shows "mag_value (n * 2 ^ nat (e - q)) q = mag_value n e"
proof -
  have "(2::real) ^ nat (e - q) = 2 powi (e - q)" using assms by (simp add: power_int_def)
  moreover have "(2::real) powi (e - q) * 2 powi q = 2 powi (e - q + q)"
    by (rule power_int_add [symmetric]) simp
  ultimately show ?thesis by (simp add: mag_value_def mult.assoc)
qed

lemma int_to_f32_exact:
  assumes "\<bar>i\<bar> < 2 ^ 24"
  shows "\<exists>m e. int_to_f32 i = FFinite (i < 0) m e \<and> mag_value m e = of_int \<bar>i\<bar>"
proof -
  define n where "n = nat \<bar>i\<bar>"
  define q where "q = round_exponent n 0"
  from assms have "int n < 2 ^ 24" unfolding n_def by simp
  then have "int n < int (2 ^ 24)" by simp
  then have "n < 2 ^ 24" by (simp only: of_nat_less_iff)
  then have "bit_length n \<le> 24" by (rule bit_length_le)
  then have q0: "q \<le> 0" unfolding q_def round_exponent_def by simp
  then have "f32_round (i < 0) n 0 = FFinite (i < 0) (round_significand n 0 q) q"
    unfolding q_def by (intro f32_round_small) simp
  moreover have "round_significand n 0 q = n * 2 ^ nat (0 - q)"
    using q0 by (rule round_significand_exact)
  moreover have "mag_value (n * 2 ^ nat (0 - q)) q = mag_value n 0"
    using q0 by (rule mag_value_scale)
  moreover have "mag_value n 0 = of_int \<bar>i\<bar>" by (simp add: mag_value_def n_def)
  ultimately show ?thesis by (simp add: int_to_f32_def n_def)
qed

lemma f32_decode_finite:
  assumes "f32_is_finite g"
  shows "\<exists>m e. f32_decode g = FFinite (f32_sign g) m e \<and> f32_value g = finite_value (f32_sign g) m e"
  using assms by (simp add: f32_is_finite_def f32_decode_def f32_value_def)

lemma finite_value_mult:
  "finite_value a m1 e1 * finite_value b m2 e2 = finite_value (a \<noteq> b) (m1 * m2) (e1 + e2)"
  by (simp add: finite_value_def mag_value_mult)

lemma product32_round:
  assumes "f32_is_finite g"
  shows "\<exists>sg n e. product32 s g = f32_round sg n e \<and> exact_product s g = finite_value sg n e"
proof -
  from assms obtain m2 e2 where d: "f32_decode g = FFinite (f32_sign g) m2 e2"
    and v: "f32_value g = finite_value (f32_sign g) m2 e2"
    using f32_decode_finite by blast
  have "\<bar>sint s\<bar> < 2 ^ 24" using sint16_bounds [of s] by (simp add: abs_less_iff)
  then obtain m1 e1 where i: "int_to_f32 (sint s) = FFinite (sint s < 0) m1 e1"
    and m: "mag_value m1 e1 = of_int \<bar>sint s\<bar>"
    using int_to_f32_exact by blast
  have "of_int (sint s) = finite_value (sint s < 0) m1 e1"
    by (simp add: finite_value_def m)
  with v have "exact_product s g = finite_value ((sint s < 0) \<noteq> f32_sign g) (m1 * m2) (e1 + e2)"
    by (simp add: exact_product_def finite_value_mult)
  moreover from d i have "product32 s g = f32_round ((sint s < 0) \<noteq> f32_sign g) (m1 * m2) (e1 + e2)"
    by (simp add: product32_def)
  ultimately show ?thesis by blast
qed

lemma truncate_finite_value:
  "truncate_toward_zero (finite_value sg m q) = (if sg then - int (trunc_mag m q) else int (trunc_mag m q))"
proof (cases sg)
  case False
  then show ?thesis
    by (simp add: truncate_toward_zero_def finite_value_def mag_value_nonneg trunc_mag_floor)
next
  case True
  show ?thesis
  proof (cases "mag_value m q = 0")
    case z: True
    with True show ?thesis
      by (simp add: truncate_toward_zero_def finite_value_def trunc_mag_floor)
  next
    case False
    with mag_value_nonneg [of m q] have "0 < mag_value m q" by simp
    with True show ?thesis
      by (simp add: truncate_toward_zero_def finite_value_def trunc_mag_floor ceiling_minus)
  qed
qed

lemma scaled_int_finite:
  assumes "product32 s g = FFinite sg m q"
    and "- 2147483648 \<le> truncate_toward_zero (finite_value sg m q)"
    and "truncate_toward_zero (finite_value sg m q) \<le> 2147483647"
  shows "scaled_int s g = Inr (clamp16 (truncate_toward_zero (finite_value sg m q)))"
  using assms by (simp add: scaled_int_def truncate_finite_value Let_def)

lemma scaled_int_InrD:
  assumes "scaled_int s g = Inr v"
  shows "\<exists>sg m q. product32 s g = FFinite sg m q
          \<and> v = clamp16 (if sg then - int (trunc_mag m q) else int (trunc_mag m q))"
proof (cases "product32 s g")
  case (FFinite sg m q)
  with assms show ?thesis
    by (auto simp: scaled_int_def Let_def split: if_splits)
next
  case (FInf x)
  with assms show ?thesis by (simp add: scaled_int_def)
next
  case FNaN
  with assms show ?thesis by (simp add: scaled_int_def)
qed

section \<open>One sample: saturation, products in range, integer products\<close>

lemma finite_value_gtD:
  assumes "of_nat K < finite_value sg n e"
  shows "\<not> sg \<and> K \<le> trunc_mag n e"
proof -
  have ns: "\<not> sg"
  proof
    assume sg
    then have "finite_value sg n e \<le> 0" by (simp add: finite_value_def mag_value_nonneg)
    moreover have "(0::real) \<le> of_nat K" by simp
    ultimately show False using assms by linarith
  qed
  then have "of_nat K \<le> mag_value n e" using assms by (simp add: finite_value_def)
  then have "\<lfloor>(of_nat K :: real)\<rfloor> \<le> \<lfloor>mag_value n e\<rfloor>" by (rule floor_mono)
  then have "int K \<le> int (trunc_mag n e)" by (simp add: trunc_mag_floor)
  with ns show ?thesis by simp
qed

lemma finite_value_ltD:
  assumes "finite_value sg n e < - of_nat K"
  shows "sg \<and> K \<le> trunc_mag n e"
proof -
  have s: sg
  proof (rule ccontr)
    assume "\<not> sg"
    then have "0 \<le> finite_value sg n e" by (simp add: finite_value_def mag_value_nonneg)
    moreover have "- (of_nat K :: real) \<le> 0" by simp
    ultimately show False using assms by linarith
  qed
  then have "of_nat K \<le> mag_value n e" using assms by (simp add: finite_value_def)
  then have "\<lfloor>(of_nat K :: real)\<rfloor> \<le> \<lfloor>mag_value n e\<rfloor>" by (rule floor_mono)
  then have "int K \<le> int (trunc_mag n e)" by (simp add: trunc_mag_floor)
  with s show ?thesis by simp
qed

text \<open>A product above the range is stored as 32767, when the conversion is defined.\<close>

lemma scaled_int_high:
  assumes fin: "f32_is_finite g" and gt: "32767 < exact_product s g"
    and ok: "scaled_int s g = Inr v"
  shows "v = 32767"
proof -
  from fin obtain sg n e where p: "product32 s g = f32_round sg n e"
    and x: "exact_product s g = finite_value sg n e"
    using product32_round by blast
  from gt x have "of_nat 32767 < finite_value sg n e" by simp
  then have ns: "\<not> sg" and big: "32767 \<le> trunc_mag n e"
    using finite_value_gtD by blast+
  from ok obtain sg' m q where f: "product32 s g = FFinite sg' m q"
    and v: "v = clamp16 (if sg' then - int (trunc_mag m q) else int (trunc_mag m q))"
    using scaled_int_InrD by blast
  from p f have r: "f32_round sg n e = FFinite sg' m q" by simp
  then have "sg' = sg" by (rule f32_round_finiteD)
  moreover from r have "trunc_mag n e \<le> trunc_mag m q \<or> 2 ^ 23 \<le> trunc_mag m q"
    by (rule f32_round_trunc_lower)
  with big have "32767 \<le> trunc_mag m q" by auto
  ultimately show ?thesis using v ns by (simp add: clamp16_high)
qed

lemma scaled_int_low:
  assumes fin: "f32_is_finite g" and lt: "exact_product s g < - 32768"
    and ok: "scaled_int s g = Inr v"
  shows "v = - 32768"
proof -
  from fin obtain sg n e where p: "product32 s g = f32_round sg n e"
    and x: "exact_product s g = finite_value sg n e"
    using product32_round by blast
  from lt x have "finite_value sg n e < - of_nat 32768" by simp
  then have s: sg and big: "32768 \<le> trunc_mag n e"
    using finite_value_ltD by blast+
  from ok obtain sg' m q where f: "product32 s g = FFinite sg' m q"
    and v: "v = clamp16 (if sg' then - int (trunc_mag m q) else int (trunc_mag m q))"
    using scaled_int_InrD by blast
  from p f have r: "f32_round sg n e = FFinite sg' m q" by simp
  then have "sg' = sg" by (rule f32_round_finiteD)
  moreover from r have "trunc_mag n e \<le> trunc_mag m q \<or> 2 ^ 23 \<le> trunc_mag m q"
    by (rule f32_round_trunc_lower)
  with big have "32768 \<le> trunc_mag m q" by auto
  ultimately show ?thesis using v s by (simp add: clamp16_low)
qed

text \<open>
  A product inside the range: the rounded product is finite and inside the range too, and
  its integer part is that of the exact product or one further from zero.
\<close>

lemma product32_in_range:
  assumes fin: "f32_is_finite g"
    and lo: "- 32768 \<le> exact_product s g" and hi: "exact_product s g \<le> 32767"
  shows "\<exists>sg m q. product32 s g = FFinite sg m q
           \<and> - 32768 \<le> truncate_toward_zero (finite_value sg m q)
           \<and> truncate_toward_zero (finite_value sg m q) \<le> 32767
           \<and> \<bar>truncate_toward_zero (exact_product s g)\<bar> \<le> \<bar>truncate_toward_zero (finite_value sg m q)\<bar>
           \<and> \<bar>truncate_toward_zero (finite_value sg m q)\<bar> \<le> \<bar>truncate_toward_zero (exact_product s g)\<bar> + 1"
proof -
  from fin obtain sg n e where p: "product32 s g = f32_round sg n e"
    and x: "exact_product s g = finite_value sg n e"
    using product32_round by blast
  define K :: nat where "K = (if sg then 32768 else 32767)"
  have K: "K < 2 ^ 24" by (simp add: K_def)
  have "mag_value n e \<le> of_nat K"
    using lo hi x by (cases sg) (simp_all add: finite_value_def K_def)
  with K obtain m q where r: "f32_round sg n e = FFinite sg m q"
    and a: "trunc_mag n e \<le> trunc_mag m q" and b: "trunc_mag m q \<le> K"
    and c: "trunc_mag m q \<le> trunc_mag n e + 1"
    using f32_round_bounded by blast
  from p r have "product32 s g = FFinite sg m q" by simp
  moreover have "- 32768 \<le> truncate_toward_zero (finite_value sg m q)"
    using b by (simp add: truncate_finite_value K_def split: if_splits)
  moreover have "truncate_toward_zero (finite_value sg m q) \<le> 32767"
    using b by (simp add: truncate_finite_value K_def split: if_splits)
  moreover have "\<bar>truncate_toward_zero (finite_value sg m q)\<bar> = int (trunc_mag m q)"
    by (simp add: truncate_finite_value)
  moreover have "\<bar>truncate_toward_zero (exact_product s g)\<bar> = int (trunc_mag n e)"
    by (simp add: x truncate_finite_value)
  ultimately show ?thesis using a c by auto
qed

lemma scaled_int_in_range:
  assumes "product32 s g = FFinite sg m q"
    and "- 32768 \<le> truncate_toward_zero (finite_value sg m q)"
    and "truncate_toward_zero (finite_value sg m q) \<le> 32767"
  shows "scaled_int s g = Inr (truncate_toward_zero (finite_value sg m q))"
proof -
  from assms have "scaled_int s g = Inr (clamp16 (truncate_toward_zero (finite_value sg m q)))"
    by (intro scaled_int_finite) simp_all
  with assms show ?thesis by (simp add: clamp16_id)
qed

text \<open>A product that is an integer sample value is stored as it is.\<close>

lemma scaled_int_integer:
  assumes fin: "f32_is_finite g" and x: "exact_product s g = of_int k"
    and k: "- 32768 \<le> k" "k \<le> 32767"
  shows "scaled_int s g = Inr k"
proof -
  from fin obtain sg n e where p: "product32 s g = f32_round sg n e"
    and v: "exact_product s g = finite_value sg n e"
    using product32_round by blast
  define K where "K = nat \<bar>k\<bar>"
  from k have "K \<le> 32768" unfolding K_def by simp
  then have K: "K < 2 ^ 24" by simp
  from x v have fv: "finite_value sg n e = of_int k" by simp
  have mag: "mag_value n e = of_nat K"
  proof (cases sg)
    case True
    with fv have "mag_value n e = - of_int k" by (simp add: finite_value_def)
    moreover from this mag_value_nonneg [of n e] have "k \<le> 0" by simp
    ultimately show ?thesis by (simp add: K_def)
  next
    case False
    with fv have "mag_value n e = of_int k" by (simp add: finite_value_def)
    moreover from this mag_value_nonneg [of n e] have "0 \<le> k" by simp
    ultimately show ?thesis by (simp add: K_def)
  qed
  have sgn: "(if sg then - int K else int K) = k"
  proof (cases sg)
    case True
    with fv have "mag_value n e = - of_int k" by (simp add: finite_value_def)
    with mag_value_nonneg [of n e] have "k \<le> 0" by simp
    with True show ?thesis by (simp add: K_def)
  next
    case False
    with fv have "mag_value n e = of_int k" by (simp add: finite_value_def)
    with mag_value_nonneg [of n e] have "0 \<le> k" by simp
    with False show ?thesis by (simp add: K_def)
  qed
  have "int (trunc_mag n e) = int K" by (simp add: trunc_mag_floor mag)
  then have tn: "trunc_mag n e = K" by simp
  from mag have "mag_value n e \<le> of_nat K" by simp
  with K obtain m q where r: "f32_round sg n e = FFinite sg m q"
    and a: "trunc_mag n e \<le> trunc_mag m q" and b: "trunc_mag m q \<le> K"
    using f32_round_bounded by blast
  from a b tn have t: "trunc_mag m q = K" by simp
  from p r have pf: "product32 s g = FFinite sg m q" by simp
  have tv: "truncate_toward_zero (finite_value sg m q) = k"
    using sgn by (simp add: truncate_finite_value t split: if_splits)
  with pf k show ?thesis using scaled_int_in_range [of s g sg m q] by simp
qed

lemma f32_value_one: "f32_value 0x3F800000 = 1"
  by (simp add: f32_value_def f32_expo_def f32_frac_def f32_sign_def finite_value_def mag_value_def)

lemma f32_value_zero: "f32_value 0 = 0"
  by (simp add: f32_value_def f32_expo_def f32_frac_def f32_sign_def finite_value_def mag_value_def)

lemma f32_finite_one: "f32_is_finite 0x3F800000"
  by (simp add: f32_is_finite_def f32_expo_def)

lemma f32_finite_zero: "f32_is_finite 0"
  by (simp add: f32_is_finite_def f32_expo_def)

lemma scale_sample_one: "scale_sample s 0x3F800000 = Inr s"
proof -
  have "exact_product s 0x3F800000 = of_int (sint s)"
    by (simp add: exact_product_def f32_value_one)
  then have "scaled_int s 0x3F800000 = Inr (sint s)"
    using f32_finite_one sint16_bounds [of s] by (intro scaled_int_integer) simp_all
  then show ?thesis by (simp add: scale_sample_def)
qed

lemma scale_sample_zero: "scale_sample s 0 = Inr 0"
proof -
  have "exact_product s 0 = of_int 0"
    by (simp add: exact_product_def f32_value_zero)
  then have "scaled_int s 0 = Inr 0"
    using f32_finite_zero by (intro scaled_int_integer) simp_all
  then show ?thesis by (simp add: scale_sample_def)
qed

section \<open>The loop\<close>

lemma body_InrD:
  assumes "body samples gain i h = Inr h'"
  shows "\<exists>s s'. h (samples + i) = Some s \<and> scale_sample s gain = Inr s' \<and> h' = h(samples + i \<mapsto> s')"
  using assms by (auto simp: body_def split: option.splits sum.splits)

lemma body_InrI:
  assumes "h (samples + i) = Some s" "scale_sample s gain = Inr s'"
  shows "body samples gain i h = Inr (h(samples + i \<mapsto> s'))"
  using assms by (simp add: body_def)

lemma loop_eq_iterate:
  "i \<le> len \<Longrightarrow> loop samples len gain i h = iterate_body (len - i) samples gain i h"
proof (induction samples len gain i h rule: loop.induct)
  case (1 samples len gain i h)
  show ?case
  proof (cases "i < len")
    case True
    then have "len - i = Suc (len - (i + 1))" by simp
    with True 1 show ?thesis
      by (subst loop.simps) (auto split: sum.splits)
  next
    case False
    with 1 show ?thesis by (subst loop.simps) simp
  qed
qed

text \<open>What a completed run of the loop from index \<open>i\<close> has done.\<close>

lemma loop_InrD:
  assumes "loop samples len gain i h = Inr (j, h')" and "i \<le> len"
  shows "j = len
     \<and> (\<forall>k. i \<le> k \<and> k < len \<longrightarrow>
           (\<exists>s s'. h (samples + k) = Some s \<and> scale_sample s gain = Inr s' \<and> h' (samples + k) = Some s'))
     \<and> (\<forall>a. a < samples + i \<or> samples + len \<le> a \<longrightarrow> h' a = h a)"
  using assms
proof (induction samples len gain i h rule: loop.induct)
  case (1 samples len gain i h)
  show ?case
  proof (cases "i < len")
    case False
    with "1.prems" show ?thesis by (subst (asm) loop.simps) auto
  next
    case True
    with "1.prems" obtain h1 where b: "body samples gain i h = Inr h1"
      and l: "loop samples len gain (i + 1) h1 = Inr (j, h')"
      by (subst (asm) loop.simps) (auto split: sum.splits)
    from b obtain s s' where s: "h (samples + i) = Some s" "scale_sample s gain = Inr s'"
      and h1: "h1 = h(samples + i \<mapsto> s')"
      using body_InrD by blast
    from True have "i + 1 \<le> len" by simp
    with "1.IH" [OF True b l] have j: "j = len"
      and rest: "\<forall>k. i + 1 \<le> k \<and> k < len \<longrightarrow>
           (\<exists>s s'. h1 (samples + k) = Some s \<and> scale_sample s gain = Inr s' \<and> h' (samples + k) = Some s')"
      and frame: "\<forall>a. a < samples + (i + 1) \<or> samples + len \<le> a \<longrightarrow> h' a = h1 a"
      by blast+
    have "\<exists>s s'. h (samples + k) = Some s \<and> scale_sample s gain = Inr s' \<and> h' (samples + k) = Some s'"
      if k: "i \<le> k" "k < len" for k
    proof (cases "k = i")
      case True
      from frame have "h' (samples + i) = h1 (samples + i)" by simp
      with s h1 True show ?thesis by simp
    next
      case False
      with k have "i + 1 \<le> k" by simp
      with rest k obtain t t' where "h1 (samples + k) = Some t" "scale_sample t gain = Inr t'"
        "h' (samples + k) = Some t'" by blast
      with False h1 show ?thesis by simp
    qed
    moreover have "h' a = h a" if "a < samples + i \<or> samples + len \<le> a" for a
    proof -
      from that True have "a \<noteq> samples + i" by auto
      moreover from that frame have "h' a = h1 a" by auto
      ultimately show ?thesis using h1 by simp
    qed
    ultimately show ?thesis using j by blast
  qed
qed

text \<open>The loop completes when every element is there and every conversion is defined.\<close>

lemma loop_InrI:
  assumes "\<forall>k. i \<le> k \<and> k < len \<longrightarrow> (\<exists>s s'. h (samples + k) = Some s \<and> scale_sample s gain = Inr s')"
  shows "\<exists>j h'. loop samples len gain i h = Inr (j, h')"
  using assms
proof (induction samples len gain i h rule: loop.induct)
  case (1 samples len gain i h)
  show ?case
  proof (cases "i < len")
    case False
    then show ?thesis by (subst loop.simps) simp
  next
    case True
    with "1.prems" obtain s s' where s: "h (samples + i) = Some s" "scale_sample s gain = Inr s'"
      by blast
    then have b: "body samples gain i h = Inr (h(samples + i \<mapsto> s'))" by (rule body_InrI)
    have "\<forall>k. i + 1 \<le> k \<and> k < len \<longrightarrow>
            (\<exists>t t'. (h(samples + i \<mapsto> s')) (samples + k) = Some t \<and> scale_sample t gain = Inr t')"
      using "1.prems" by auto
    with "1.IH" [OF True b] obtain j h' where
      "loop samples len gain (i + 1) (h(samples + i \<mapsto> s')) = Inr (j, h')" by blast
    with True b show ?thesis by (subst loop.simps) simp
  qed
qed

lemma apply_gain_InrD:
  assumes "apply_gain samples len gain h = Inr h'"
  shows "(\<forall>k<len. \<exists>s s'. h (samples + k) = Some s \<and> scale_sample s gain = Inr s' \<and> h' (samples + k) = Some s')
     \<and> (\<forall>a. a < samples \<or> samples + len \<le> a \<longrightarrow> h' a = h a)"
proof -
  from assms obtain j where "loop samples len gain 0 h = Inr (j, h')"
    by (auto simp: apply_gain_def split: sum.splits)
  from loop_InrD [OF this] show ?thesis by simp
qed

lemma apply_gain_InrI:
  assumes "\<forall>k<len. \<exists>s s'. h (samples + k) = Some s \<and> scale_sample s gain = Inr s'"
  shows "\<exists>h'. apply_gain samples len gain h = Inr h'"
proof -
  from assms have "\<exists>j h'. loop samples len gain 0 h = Inr (j, h')"
    by (intro loop_InrI) simp
  then show ?thesis by (auto simp: apply_gain_def)
qed

text \<open>Two runs on storages that agree on the buffer go the same way.\<close>

lemma loop_agree:
  assumes "\<forall>k<len. h1 (samples + k) = h2 (samples + k)"
  shows "rel_sum (=) (\<lambda>(j1, h1') (j2, h2'). j1 = j2 \<and> (\<forall>k<len. h1' (samples + k) = h2' (samples + k)))
           (loop samples len gain i h1) (loop samples len gain i h2)"
  using assms
proof (induction samples len gain i h1 arbitrary: h2 rule: loop.induct)
  case (1 samples len gain i h1)
  show ?case
  proof (cases "i < len")
    case False
    with "1.prems" show ?thesis
      by (simp add: loop.simps [of samples len gain i h1] loop.simps [of samples len gain i h2])
  next
    case True
    with "1.prems" have rd: "h1 (samples + i) = h2 (samples + i)" by simp
    show ?thesis
    proof (cases "body samples gain i h1")
      case (Inl err)
      with rd have "body samples gain i h2 = Inl err"
        by (auto simp: body_def split: option.splits sum.splits)
      with Inl True show ?thesis
        by (simp add: loop.simps [of samples len gain i h1] loop.simps [of samples len gain i h2])
    next
      case (Inr h1')
      then obtain s s' where s: "h1 (samples + i) = Some s" "scale_sample s gain = Inr s'"
        and u: "h1' = h1(samples + i \<mapsto> s')"
        using body_InrD by blast
      from s rd have b2: "body samples gain i h2 = Inr (h2(samples + i \<mapsto> s'))"
        by (simp add: body_def)
      have "\<forall>k<len. h1' (samples + k) = (h2(samples + i \<mapsto> s')) (samples + k)"
        using "1.prems" u by simp
      then have ih: "rel_sum (=)
          (\<lambda>(j1, h1') (j2, h2'). j1 = j2 \<and> (\<forall>k<len. h1' (samples + k) = h2' (samples + k)))
          (loop samples len gain (i + 1) h1') (loop samples len gain (i + 1) (h2(samples + i \<mapsto> s')))"
        by (rule "1.IH" [OF True Inr])
      have l1: "loop samples len gain i h1 = loop samples len gain (i + 1) h1'"
        using True Inr by (subst loop.simps) simp
      have l2: "loop samples len gain i h2 = loop samples len gain (i + 1) (h2(samples + i \<mapsto> s'))"
        using True b2 by (subst loop.simps) simp
      show ?thesis unfolding l1 l2 by (rule ih)
    qed
  qed
qed

lemma apply_gain_heap_of:
  assumes "list_all2 (\<lambda>x y. scale_sample x gain = Inr y) xs ys"
  shows "apply_gain samples (length xs) gain (heap_of samples xs) = Inr (heap_of samples ys)"
proof -
  from assms have len: "length ys = length xs" by (simp add: list_all2_lengthD)
  have each: "scale_sample (xs ! k) gain = Inr (ys ! k)" if "k < length xs" for k
    using list_all2_nthD [OF assms that] by simp
  have "\<forall>k<length xs. \<exists>s s'. heap_of samples xs (samples + k) = Some s \<and> scale_sample s gain = Inr s'"
    using each by (simp add: heap_of_def)
  then obtain h' where r: "apply_gain samples (length xs) gain (heap_of samples xs) = Inr h'"
    using apply_gain_InrI by blast
  have "h' a = heap_of samples ys a" for a
  proof (cases "samples \<le> a \<and> a < samples + length xs")
    case True
    then obtain k where k: "a = samples + k" "k < length xs"
      by (metis add_diff_inverse_nat less_diff_conv2 not_less add.commute)
    with apply_gain_InrD [OF r] obtain s s' where
      "heap_of samples xs (samples + k) = Some s" "scale_sample s gain = Inr s'" "h' (samples + k) = Some s'"
      by blast
    with k each [of k] len show ?thesis by (simp add: heap_of_def)
  next
    case False
    with apply_gain_InrD [OF r] have "h' a = heap_of samples xs a" by auto
    with False len show ?thesis by (auto simp: heap_of_def)
  qed
  then have "h' = heap_of samples ys" by (rule ext)
  with r show ?thesis by simp
qed

section \<open>The rounding error\<close>

lemma round_significand_error:
  assumes "e < q"
  shows "\<bar>int (round_significand n e q) * 2 ^ nat (q - e) - int n\<bar> \<le> 2 ^ (nat (q - e) - 1)"
proof -
  define sh where "sh = nat (q - e)"
  define t where "t = n div 2 ^ sh"
  define r where "r = n mod 2 ^ sh"
  define half :: nat where "half = 2 ^ (sh - 1)"
  from assms have "0 < sh" by (simp add: sh_def)
  then have d: "(2::nat) ^ sh = 2 * half"
    unfolding half_def by (cases sh) simp_all
  have "n = t * 2 ^ sh + r" unfolding t_def r_def by (rule div_mult_mod_eq [symmetric])
  then have n: "n = t * (2 * half) + r" by (simp only: d)
  have "r < 2 ^ sh" unfolding r_def by simp
  then have r: "r < 2 * half" by (simp only: d)
  have m: "round_significand n e q = (if half < r \<or> (r = half \<and> odd t) then t + 1 else t)"
    using assms by (simp add: round_significand_def Let_def sh_def t_def r_def half_def)
  have "\<bar>int (round_significand n e q) * int (2 * half) - int n\<bar> \<le> int half"
  proof (cases "half < r \<or> (r = half \<and> odd t)")
    case True
    then have "half \<le> r" by auto
    moreover from True m have "round_significand n e q = t + 1" by simp
    ultimately show ?thesis using n r by (simp add: algebra_simps)
  next
    case False
    then have "r \<le> half" by auto
    moreover from False m have "round_significand n e q = t" by simp
    ultimately show ?thesis using n by (simp add: algebra_simps)
  qed
  moreover have "int (2 * half) = 2 ^ sh" by (simp only: d [symmetric]) simp
  moreover have "int half = 2 ^ (sh - 1)" by (simp add: half_def)
  ultimately show ?thesis by (simp only: sh_def)
qed

text \<open>The rounded value is within half a unit in the last place of the exact one.\<close>

lemma f32_round_nearest:
  assumes r: "f32_round sg n e = FFinite sg' m q"
  shows "\<bar>mag_value m q - mag_value n e\<bar> \<le> 2 powi (q - 1)"
proof (cases "q \<le> e")
  case True
  from r have "m = round_significand n e q" by (rule f32_round_finiteD)
  with True have "m = n * 2 ^ nat (e - q)" by (simp add: round_significand_exact)
  with True have "mag_value m q = mag_value n e" by (simp add: mag_value_scale)
  then show ?thesis by simp
next
  case False
  then have eq: "e < q" by simp
  define sh where "sh = nat (q - e)"
  from r have m: "m = round_significand n e q" by (rule f32_round_finiteD)
  from eq have sh: "q = e + int sh" "0 < sh" by (simp_all add: sh_def)
  have pq: "(2::real) powi q = 2 ^ sh * 2 powi e"
    unfolding sh(1) by (subst power_int_add) (simp_all add: mult.commute)
  have ph: "(2::real) powi (q - 1) = 2 ^ (sh - 1) * 2 powi e"
  proof -
    from sh have "q - 1 = e + int (sh - 1)" by simp
    then show ?thesis by (simp add: power_int_add mult.commute)
  qed
  have "\<bar>int m * 2 ^ sh - int n\<bar> \<le> 2 ^ (sh - 1)"
    using round_significand_error [OF eq, of n] by (simp add: m sh_def)
  then have "(of_int \<bar>int m * 2 ^ sh - int n\<bar> :: real) \<le> of_int (2 ^ (sh - 1))"
    by (simp only: of_int_le_iff)
  then have i: "\<bar>of_nat m * 2 ^ sh - (of_nat n :: real)\<bar> \<le> 2 ^ (sh - 1)" by simp
  have "mag_value m q - mag_value n e = (of_nat m * 2 ^ sh - of_nat n) * 2 powi e"
    by (simp add: mag_value_def pq algebra_simps)
  then have "\<bar>mag_value m q - mag_value n e\<bar> = \<bar>of_nat m * 2 ^ sh - (of_nat n :: real)\<bar> * 2 powi e"
    by (simp add: abs_mult)
  also have "\<dots> \<le> 2 ^ (sh - 1) * 2 powi e"
    using i by (intro mult_right_mono) simp_all
  finally show ?thesis by (simp add: ph)
qed

lemma finite_value_diff:
  "\<bar>finite_value sg m q - finite_value sg n e\<bar> = \<bar>mag_value m q - mag_value n e\<bar>"
  by (simp add: finite_value_def abs_minus_commute)

lemma product32_nearest:
  assumes "f32_is_finite g" and "product32 s g = FFinite sg m q"
  shows "\<bar>finite_value sg m q - exact_product s g\<bar> \<le> 2 powi (q - 1)"
proof -
  from assms(1) obtain sg' n e where p: "product32 s g = f32_round sg' n e"
    and x: "exact_product s g = finite_value sg' n e"
    using product32_round by blast
  from p assms(2) have r: "f32_round sg' n e = FFinite sg m q" by simp
  then have "sg = sg'" by (rule f32_round_finiteD)
  with x have "\<bar>finite_value sg m q - exact_product s g\<bar> = \<bar>mag_value m q - mag_value n e\<bar>"
    by (simp add: finite_value_diff)
  with f32_round_nearest [OF r] show ?thesis by simp
qed

text \<open>The rounded significand has at most 24 digits, or is \<open>2\<^sup>2\<^sup>4\<close> after a carry.\<close>

lemma round_significand_le:
  "round_significand n e (round_exponent n e) \<le> 2 ^ 24"
proof -
  define b where "b = bit_length n"
  define q where "q = round_exponent n e"
  have n: "n < 2 ^ b" unfolding b_def by (rule bit_length_upper)
  have q: "e + int b - 24 \<le> q" unfolding q_def b_def round_exponent_def by simp
  show ?thesis
  proof (cases "q \<le> e")
    case True
    with q have "b + nat (e - q) \<le> 24" by linarith
    then have "(2::nat) ^ (b + nat (e - q)) \<le> 2 ^ 24" by (intro power_increasing) simp_all
    then have "(2::nat) ^ b * 2 ^ nat (e - q) \<le> 2 ^ 24" by (simp only: power_add)
    moreover from n have "n * 2 ^ nat (e - q) < 2 ^ b * 2 ^ nat (e - q)" by simp
    ultimately have "n * 2 ^ nat (e - q) \<le> 2 ^ 24" by linarith
    with True show ?thesis by (simp add: round_significand_exact q_def [symmetric])
  next
    case False
    then have eq: "e < q" by simp
    let ?sh = "nat (q - e)"
    from q eq have "b \<le> 24 + ?sh" by linarith
    then have "(2::nat) ^ b \<le> 2 ^ (24 + ?sh)" by (intro power_increasing) simp_all
    with n have "n < 2 ^ 24 * 2 ^ ?sh" by (simp add: power_add)
    then have "n div 2 ^ ?sh < 2 ^ 24" by (simp add: less_mult_imp_div_less)
    with round_significand_bounds [OF eq, of n] show ?thesis
      by (simp add: q_def [symmetric])
  qed
qed

lemma f32_round_representable:
  assumes "f32_round sg n e = FFinite sg' m q"
  shows "m \<le> 2 ^ 24 \<and> - 149 \<le> q"
proof -
  from assms have "q = round_exponent n e" "m = round_significand n e q"
    by (rule f32_round_finiteD)+
  then show ?thesis using round_significand_le [of n e] by (simp add: round_exponent_def)
qed

lemma product32_representable:
  assumes "f32_is_finite g" and "product32 s g = FFinite sg m q"
  shows "m \<le> 2 ^ 24 \<and> - 149 \<le> q"
proof -
  from assms(1) obtain sg' n e where "product32 s g = f32_round sg' n e"
    using product32_round by blast
  with assms(2) have "f32_round sg' n e = FFinite sg m q" by simp
  then show ?thesis by (rule f32_round_representable)
qed

section \<open>Runs on concrete buffers\<close>

lemma heap_of_Cons_0: "heap_of samples (x # xs) samples = Some x"
  by (simp add: heap_of_def)

lemma apply_gain_heap_of_prefix:
  assumes "list_all2 (\<lambda>x y. scale_sample x gain = Inr y) xs ys"
  shows "apply_gain samples (length xs) gain (heap_of samples (xs @ zs)) = Inr (heap_of samples (ys @ zs))"
proof -
  from assms have len: "length ys = length xs" by (simp add: list_all2_lengthD)
  have each: "scale_sample (xs ! k) gain = Inr (ys ! k)" if "k < length xs" for k
    using list_all2_nthD [OF assms that] by simp
  have "\<forall>k<length xs. \<exists>s s'. heap_of samples (xs @ zs) (samples + k) = Some s \<and> scale_sample s gain = Inr s'"
    using each by (simp add: heap_of_def nth_append)
  then obtain h' where r: "apply_gain samples (length xs) gain (heap_of samples (xs @ zs)) = Inr h'"
    using apply_gain_InrI by blast
  have "h' a = heap_of samples (ys @ zs) a" for a
  proof (cases "samples \<le> a \<and> a < samples + length xs")
    case True
    then obtain k where k: "a = samples + k" "k < length xs"
      by (metis add_diff_inverse_nat less_diff_conv2 not_less add.commute)
    with apply_gain_InrD [OF r] obtain s s' where
      "heap_of samples (xs @ zs) (samples + k) = Some s" "scale_sample s gain = Inr s'"
      "h' (samples + k) = Some s'"
      by blast
    with k each [of k] len show ?thesis by (simp add: heap_of_def nth_append)
  next
    case False
    with apply_gain_InrD [OF r] have "h' a = heap_of samples (xs @ zs) a" by auto
    with False len show ?thesis by (auto simp: heap_of_def nth_append)
  qed
  then have "h' = heap_of samples (ys @ zs)" by (rule ext)
  with r show ?thesis by simp
qed

lemma apply_gain_first_fault:
  assumes "0 < len" "h samples = Some s" "scale_sample s gain = Inl err"
  shows "apply_gain samples len gain h = Inl err"
proof -
  from assms have "body samples gain 0 h = Inl err" by (simp add: body_def)
  with assms(1) have "loop samples len gain 0 h = Inl err" by (subst loop.simps) simp
  then show ?thesis by (simp add: apply_gain_def)
qed

lemmas sample_eval = scale_sample_def scaled_int_def product32_def int_to_f32_def f32_round_def
  round_exponent_def round_significand_def f32_decode_def f32_expo_def f32_frac_def f32_sign_def
  bit_length.simps trunc_mag_def clamp16_def Let_def

lemma scale_1000_by_2: "scale_sample 1000 0x40000000 = Inr 2000"
  by (simp add: sample_eval)

lemma scale_m1000_by_2: "scale_sample (- 1000) 0x40000000 = Inr (- 2000)"
  by (simp add: sample_eval)

lemma scale_32000_by_2: "scale_sample 32000 0x40000000 = Inr 32767"
  by (simp add: sample_eval)

lemma scale_m32000_by_2: "scale_sample (- 32000) 0x40000000 = Inr (- 32768)"
  by (simp add: sample_eval)

lemma scale_100_by_half: "scale_sample 100 0x3F000000 = Inr 50"
  by (simp add: sample_eval)

lemma scale_100_by_2_01: "scale_sample 100 0x4000A3D7 = Inr 201"
  by (simp add: sample_eval)

lemma scale_1000_by_2_004: "scale_sample 1000 0x40004189 = Inr 2004"
  by (simp add: sample_eval)

lemma scale_32767_by_70000: "scale_sample 32767 0x4788B800 = Inl FloatToIntOverflow"
  by (simp add: sample_eval)

lemma product_100_by_2_01: "product32 100 0x4000A3D7 = FFinite False 13172736 (- 16)"
  by (simp add: sample_eval)

lemma exact_100_by_2_01: "exact_product 100 0x4000A3D7 = 210763775 / 1048576"
  by (simp add: exact_product_def f32_value_def f32_expo_def f32_frac_def f32_sign_def
      finite_value_def mag_value_def)

lemma exact_1000_by_2_004: "exact_product 1000 0x40004189 = 1050673125 / 524288"
  by (simp add: exact_product_def f32_value_def f32_expo_def f32_frac_def f32_sign_def
      finite_value_def mag_value_def)

lemma exact_32767_by_70000: "exact_product 32767 0x4788B800 = 2293690000"
  by (simp add: exact_product_def f32_value_def f32_expo_def f32_frac_def f32_sign_def
      finite_value_def mag_value_def)

lemma trunc_100_by_2_01: "truncate_toward_zero (exact_product 100 0x4000A3D7) = 200"
  by (simp add: exact_100_by_2_01 truncate_toward_zero_def)

lemma trunc_1000_by_2_004: "truncate_toward_zero (exact_product 1000 0x40004189) = 2003"
  by (simp add: exact_1000_by_2_004 truncate_toward_zero_def)

lemma finite_2_01: "f32_is_finite 0x4000A3D7"
  by (simp add: f32_is_finite_def f32_expo_def)

lemma finite_2_004: "f32_is_finite 0x40004189"
  by (simp add: f32_is_finite_def f32_expo_def)

lemma finite_70000: "f32_is_finite 0x4788B800"
  by (simp add: f32_is_finite_def f32_expo_def)

lemma finite_two: "f32_is_finite 0x40000000"
  by (simp add: f32_is_finite_def f32_expo_def)

lemma example_gain_two:
  "apply_gain samples 4 0x40000000 (heap_of samples [1000, - 1000, 32000, - 32000])
     = Inr (heap_of samples [2000, - 2000, 32767, - 32768])"
  using apply_gain_heap_of_prefix [of "0x40000000" "[1000, - 1000, 32000, - 32000]"
      "[2000, - 2000, 32767, - 32768]" samples "[]"]
  by (simp add: scale_1000_by_2 scale_m1000_by_2 scale_32000_by_2 scale_m32000_by_2 eval_nat_numeral)

lemma example_gain_two_prefix:
  "apply_gain samples 2 0x40000000 (heap_of samples ([1000, - 1000] @ zs))
     = Inr (heap_of samples ([2000, - 2000] @ zs))"
  using apply_gain_heap_of_prefix [of "0x40000000" "[1000, - 1000]" "[2000, - 2000]" samples zs]
  by (simp add: scale_1000_by_2 scale_m1000_by_2 eval_nat_numeral)

lemma example_gain_half:
  "apply_gain samples 1 0x3F000000 (heap_of samples [100]) = Inr (heap_of samples [50])"
  using apply_gain_heap_of_prefix [of "0x3F000000" "[100]" "[50]" samples "[]"]
  by (simp add: scale_100_by_half)

lemma example_gain_2_01:
  "apply_gain samples 1 0x4000A3D7 (heap_of samples [100]) = Inr (heap_of samples [201])"
  using apply_gain_heap_of_prefix [of "0x4000A3D7" "[100]" "[201]" samples "[]"]
  by (simp add: scale_100_by_2_01)

lemma example_gain_70000:
  "apply_gain samples 1 0x4788B800 (heap_of samples [32767]) = Inl FloatToIntOverflow"
  by (rule apply_gain_first_fault [where s = 32767])
    (simp_all add: heap_of_Cons_0 scale_32767_by_70000)

section \<open>The loop on a given processor\<close>

lemma body_on_InrD:
  assumes "body_on u samples gain i h = Inr h'"
  shows "\<exists>s. h (samples + i) = Some s \<and> h' = h(samples + i \<mapsto> scale_sample_on u s gain)"
  using assms by (auto simp: body_on_def split: option.splits)

lemma loop_on_eq_iterate:
  "i \<le> len \<Longrightarrow> loop_on u samples len gain i h = iterate_body_on u (len - i) samples gain i h"
proof (induction u samples len gain i h rule: loop_on.induct)
  case (1 u samples len gain i h)
  show ?case
  proof (cases "i < len")
    case True
    then have "len - i = Suc (len - (i + 1))" by simp
    with True 1 show ?thesis
      by (subst loop_on.simps) (auto split: sum.splits)
  next
    case False
    with 1 show ?thesis by (subst loop_on.simps) simp
  qed
qed

lemma loop_on_InrD:
  assumes "loop_on u samples len gain i h = Inr (j, h')" and "i \<le> len"
  shows "j = len
     \<and> (\<forall>k. i \<le> k \<and> k < len \<longrightarrow>
           (\<exists>s. h (samples + k) = Some s \<and> h' (samples + k) = Some (scale_sample_on u s gain)))
     \<and> (\<forall>a. a < samples + i \<or> samples + len \<le> a \<longrightarrow> h' a = h a)"
  using assms
proof (induction u samples len gain i h rule: loop_on.induct)
  case (1 u samples len gain i h)
  show ?case
  proof (cases "i < len")
    case False
    with "1.prems" show ?thesis by (subst (asm) loop_on.simps) auto
  next
    case True
    with "1.prems" obtain h1 where b: "body_on u samples gain i h = Inr h1"
      and l: "loop_on u samples len gain (i + 1) h1 = Inr (j, h')"
      by (subst (asm) loop_on.simps) (auto split: sum.splits)
    from b obtain s where s: "h (samples + i) = Some s"
      and h1: "h1 = h(samples + i \<mapsto> scale_sample_on u s gain)"
      using body_on_InrD by blast
    from True have "i + 1 \<le> len" by simp
    with "1.IH" [OF True b l] have j: "j = len"
      and rest: "\<forall>k. i + 1 \<le> k \<and> k < len \<longrightarrow>
           (\<exists>s. h1 (samples + k) = Some s \<and> h' (samples + k) = Some (scale_sample_on u s gain))"
      and frame: "\<forall>a. a < samples + (i + 1) \<or> samples + len \<le> a \<longrightarrow> h' a = h1 a"
      by blast+
    have "\<exists>s. h (samples + k) = Some s \<and> h' (samples + k) = Some (scale_sample_on u s gain)"
      if k: "i \<le> k" "k < len" for k
    proof (cases "k = i")
      case True
      from frame have "h' (samples + i) = h1 (samples + i)" by simp
      with s h1 True show ?thesis by simp
    next
      case False
      with k have "i + 1 \<le> k" by simp
      with rest k obtain t where "h1 (samples + k) = Some t"
        "h' (samples + k) = Some (scale_sample_on u t gain)" by blast
      with False h1 show ?thesis by simp
    qed
    moreover have "h' a = h a" if "a < samples + i \<or> samples + len \<le> a" for a
    proof -
      from that True have "a \<noteq> samples + i" by auto
      moreover from that frame have "h' a = h1 a" by auto
      ultimately show ?thesis using h1 by simp
    qed
    ultimately show ?thesis using j by blast
  qed
qed

text \<open>On a buffer of \<open>len\<close> elements the loop returns, whatever the gain and the processor.\<close>

lemma loop_on_InrI:
  assumes "\<forall>k. i \<le> k \<and> k < len \<longrightarrow> h (samples + k) \<noteq> None"
  shows "\<exists>j h'. loop_on u samples len gain i h = Inr (j, h')"
  using assms
proof (induction u samples len gain i h rule: loop_on.induct)
  case (1 u samples len gain i h)
  show ?case
  proof (cases "i < len")
    case False
    then show ?thesis by (subst loop_on.simps) simp
  next
    case True
    with "1.prems" obtain s where s: "h (samples + i) = Some s" by auto
    then have b: "body_on u samples gain i h = Inr (h(samples + i \<mapsto> scale_sample_on u s gain))"
      by (simp add: body_on_def)
    have "\<forall>k. i + 1 \<le> k \<and> k < len \<longrightarrow>
            (h(samples + i \<mapsto> scale_sample_on u s gain)) (samples + k) \<noteq> None"
      using "1.prems" by auto
    with "1.IH" [OF True b] obtain j h' where
      "loop_on u samples len gain (i + 1) (h(samples + i \<mapsto> scale_sample_on u s gain)) = Inr (j, h')"
      by blast
    with True b show ?thesis by (subst loop_on.simps) simp
  qed
qed

text \<open>Where the conversion is defined the processor delivers the defined value.\<close>

lemma scale_sample_on_defined:
  assumes "scale_sample s gain = Inr s'"
  shows "scale_sample_on u s gain = s'"
  using assms
  by (auto simp: scale_sample_def scaled_int_def scale_sample_on_def f32_to_int_on_def
      split: sum.splits)

lemma body_on_defined:
  assumes "body samples gain i h = Inr h'"
  shows "body_on u samples gain i h = Inr h'"
proof -
  from assms obtain s s' where "h (samples + i) = Some s" "scale_sample s gain = Inr s'"
    "h' = h(samples + i \<mapsto> s')" using body_InrD by blast
  then show ?thesis by (simp add: body_on_def scale_sample_on_defined)
qed

lemma loop_on_defined:
  assumes "loop samples len gain i h = Inr r"
  shows "loop_on u samples len gain i h = Inr r"
  using assms
proof (induction samples len gain i h rule: loop.induct)
  case (1 samples len gain i h)
  show ?case
  proof (cases "i < len")
    case False
    with "1.prems" have "r = (i, h)" by (subst (asm) loop.simps) simp
    with False show ?thesis by (subst loop_on.simps) simp
  next
    case True
    with "1.prems" obtain h1 where b: "body samples gain i h = Inr h1"
      and l: "loop samples len gain (i + 1) h1 = Inr r"
      by (subst (asm) loop.simps) (auto split: sum.splits)
    from b have b': "body_on u samples gain i h = Inr h1" by (rule body_on_defined)
    from "1.IH" [OF True b l] have "loop_on u samples len gain (i + 1) h1 = Inr r" .
    with True b' show ?thesis by (subst loop_on.simps) simp
  qed
qed

lemma loop_on_heap_of:
  "loop_on u samples (length xs) gain 0 (heap_of samples (xs @ zs))
     = Inr (length xs, heap_of samples (map (\<lambda>s. scale_sample_on u s gain) xs @ zs))"
proof -
  have "\<forall>k. 0 \<le> k \<and> k < length xs \<longrightarrow> heap_of samples (xs @ zs) (samples + k) \<noteq> None"
    by (simp add: heap_of_def)
  then obtain j h' where r: "loop_on u samples (length xs) gain 0 (heap_of samples (xs @ zs)) = Inr (j, h')"
    using loop_on_InrI [where i = 0 and len = "length xs" and h = "heap_of samples (xs @ zs)"
        and samples = samples and u = u and gain = gain] by auto
  from loop_on_InrD [OF r] have j: "j = length xs"
    and vals: "\<forall>k<length xs. \<exists>s. heap_of samples (xs @ zs) (samples + k) = Some s
        \<and> h' (samples + k) = Some (scale_sample_on u s gain)"
    and frame: "\<forall>a. a < samples \<or> samples + length xs \<le> a \<longrightarrow> h' a = heap_of samples (xs @ zs) a"
    by simp_all
  have "h' a = heap_of samples (map (\<lambda>s. scale_sample_on u s gain) xs @ zs) a" for a
  proof (cases "samples \<le> a \<and> a < samples + length xs")
    case True
    then obtain k where k: "a = samples + k" "k < length xs"
      by (metis add_diff_inverse_nat less_diff_conv2 not_less add.commute)
    with vals obtain s where "heap_of samples (xs @ zs) (samples + k) = Some s"
      "h' (samples + k) = Some (scale_sample_on u s gain)" by blast
    with k show ?thesis by (simp add: heap_of_def nth_append)
  next
    case False
    with frame have "h' a = heap_of samples (xs @ zs) a" by auto
    with False show ?thesis by (auto simp: heap_of_def nth_append)
  qed
  then have "h' = heap_of samples (map (\<lambda>s. scale_sample_on u s gain) xs @ zs)" by (rule ext)
  with r j show ?thesis by simp
qed

lemmas sample_on_eval = scale_sample_on_def f32_to_int_on_def cvttss2si_indefinite_def product32_def
  int_to_f32_def f32_round_def round_exponent_def round_significand_def f32_decode_def f32_expo_def
  f32_frac_def f32_sign_def bit_length.simps trunc_mag_def clamp16_def Let_def

lemma on_32767_by_70000: "scale_sample_on cvttss2si_indefinite 32767 0x4788B800 = - 32768"
  by (simp add: sample_on_eval)

lemma on_1_by_70000: "scale_sample_on cvttss2si_indefinite 1 0x4788B800 = 32767"
  by (simp add: sample_on_eval)

lemma on_m1_by_70000: "scale_sample_on cvttss2si_indefinite (- 1) 0x4788B800 = - 32768"
  by (simp add: sample_on_eval)

lemma on_0_by_70000: "scale_sample_on cvttss2si_indefinite 0 0x4788B800 = 0"
  by (simp add: sample_on_eval)

lemma example_on_gain_70000:
  "loop_on cvttss2si_indefinite 0 4 0x4788B800 0 (heap_of 0 [32767, 1, - 1, 0])
     = Inr (4, heap_of 0 [- 32768, 32767, - 32768, 0])"
  using loop_on_heap_of [of cvttss2si_indefinite 0 "[32767, 1, - 1, 0]" "0x4788B800" "[]"]
  by (simp add: on_32767_by_70000 on_1_by_70000 on_m1_by_70000 on_0_by_70000 eval_nat_numeral)

section \<open>The call with length 0\<close>


section \<open>The claims\<close>

text \<open>
  C7. On the buffer \<open>[1000, -1000, 32000, -32000]\<close> with gain 2.0 (the pattern
  \<open>0x40000000\<close>) the call leaves \<open>[2000, -2000, 32767, -32768]\<close>, and on \<open>[100]\<close> with
  gain 0.5 (\<open>0x3F000000\<close>) it leaves \<open>[50]\<close>, wherever the buffer lies.
\<close>

theorem apply_gain_scenarios:
  "apply_gain samples 4 0x40000000 (heap_of samples [1000, - 1000, 32000, - 32000])
     = Inr (heap_of samples [2000, - 2000, 32767, - 32768])
   \<and> apply_gain samples 1 0x3F000000 (heap_of samples [100]) = Inr (heap_of samples [50])"
  by (simp only: example_gain_two example_gain_half)



text \<open>
  The sample 100 with the gain \<^verbatim>\<open>2.01f\<close> (the pattern \<open>0x4000A3D7\<close>, the number
  \<open>8430551 / 2\<^sup>2\<^sup>2\<close>): the product without rounding is \<open>200.99999904...\<close>, inside the range,
  with integer part 200; the call stores 201.
\<close>

theorem apply_gain_exact_truncation_counterexample:
  "f32_is_finite 0x4000A3D7
   \<and> - 32768 \<le> exact_product 100 0x4000A3D7 \<and> exact_product 100 0x4000A3D7 \<le> 32767
   \<and> apply_gain 0 1 0x4000A3D7 (heap_of 0 [100]) = Inr (heap_of 0 [201])
   \<and> heap_of 0 [201] 0 = Some 201
   \<and> sint (201 :: 16 word) \<noteq> truncate_toward_zero (exact_product 100 0x4000A3D7)"
proof -
  have lo: "- 32768 \<le> exact_product 100 0x4000A3D7" by (simp add: exact_100_by_2_01)
  have hi: "exact_product 100 0x4000A3D7 \<le> 32767" by (simp add: exact_100_by_2_01)
  have run: "apply_gain 0 1 0x4000A3D7 (heap_of 0 [100]) = Inr (heap_of 0 [201])"
    by (rule example_gain_2_01)
  have st: "heap_of 0 [201] 0 = Some 201" by (simp add: heap_of_def)
  have ne: "sint (201 :: 16 word) \<noteq> truncate_toward_zero (exact_product 100 0x4000A3D7)"
    by (simp add: trunc_100_by_2_01)
  from finite_2_01 lo hi run st ne show ?thesis by blast
qed

text \<open>
  C2, as amended. For a sample \<open>s\<close> among the first \<open>len\<close> and a finite gain whose product with
  \<open>s\<close>, without rounding, lies in \<open>[-32768, 32767]\<close>, the product in binary32 is finite and
  within half a unit in its last place of the product without rounding, and the value stored
  by a call that returns is the integer part (towards zero) of the product in binary32. Its
  magnitude is that of the integer part of the product without rounding, or one more.
\<close>

theorem apply_gain_truncates_rounded_product:
  assumes fin: "f32_is_finite gain"
    and lo: "- 32768 \<le> exact_product s gain" and hi: "exact_product s gain \<le> 32767"
    and run: "apply_gain samples len gain h = Inr h'"
    and k: "k < len" and s: "h (samples + k) = Some s"
  shows "\<exists>sg m q s'. product32 s gain = FFinite sg m q
           \<and> \<bar>finite_value sg m q - exact_product s gain\<bar> \<le> 2 powi (q - 1)
           \<and> h' (samples + k) = Some s'
           \<and> sint s' = truncate_toward_zero (finite_value sg m q)
           \<and> \<bar>truncate_toward_zero (exact_product s gain)\<bar> \<le> \<bar>sint s'\<bar>
           \<and> \<bar>sint s'\<bar> \<le> \<bar>truncate_toward_zero (exact_product s gain)\<bar> + 1"
proof -
  from product32_in_range [OF fin lo hi] obtain sg m q where
    p: "product32 s gain = FFinite sg m q"
    and tlo: "- 32768 \<le> truncate_toward_zero (finite_value sg m q)"
    and thi: "truncate_toward_zero (finite_value sg m q) \<le> 32767"
    and a: "\<bar>truncate_toward_zero (exact_product s gain)\<bar> \<le> \<bar>truncate_toward_zero (finite_value sg m q)\<bar>"
    and b: "\<bar>truncate_toward_zero (finite_value sg m q)\<bar> \<le> \<bar>truncate_toward_zero (exact_product s gain)\<bar> + 1"
    by blast
  from p tlo thi have v: "scaled_int s gain = Inr (truncate_toward_zero (finite_value sg m q))"
    by (rule scaled_int_in_range)
  from apply_gain_InrD [OF run] k s obtain s' where
    s': "scale_sample s gain = Inr s'" "h' (samples + k) = Some s'"
    by fastforce
  from s'(1) have "scaled_int s gain = Inr (sint s')" by (rule scale_sample_sint)
  with v have eq: "sint s' = truncate_toward_zero (finite_value sg m q)" by simp
  from fin p have "\<bar>finite_value sg m q - exact_product s gain\<bar> \<le> 2 powi (q - 1)"
    by (rule product32_nearest)
  with p s'(2) eq a b show ?thesis by auto
qed

text \<open>The sample 100 with the gain \<^verbatim>\<open>2.01f\<close>.\<close>

theorem apply_gain_truncates_rounded_product_witness:
  "f32_is_finite 0x4000A3D7
   \<and> - 32768 \<le> exact_product 100 0x4000A3D7 \<and> exact_product 100 0x4000A3D7 \<le> 32767
   \<and> apply_gain 0 1 0x4000A3D7 (heap_of 0 [100]) = Inr (heap_of 0 [201])
   \<and> (0::nat) < 1 \<and> heap_of 0 [100] (0 + 0) = Some 100
   \<and> (\<exists>sg m q s'. product32 100 0x4000A3D7 = FFinite sg m q
           \<and> \<bar>finite_value sg m q - exact_product 100 0x4000A3D7\<bar> \<le> 2 powi (q - 1)
           \<and> heap_of 0 [201] (0 + 0) = Some s'
           \<and> sint s' = truncate_toward_zero (finite_value sg m q)
           \<and> \<bar>truncate_toward_zero (exact_product 100 0x4000A3D7)\<bar> \<le> \<bar>sint s'\<bar>
           \<and> \<bar>sint s'\<bar> \<le> \<bar>truncate_toward_zero (exact_product 100 0x4000A3D7)\<bar> + 1)"
proof -
  have lo: "- 32768 \<le> exact_product 100 0x4000A3D7" by (simp add: exact_100_by_2_01)
  have hi: "exact_product 100 0x4000A3D7 \<le> 32767" by (simp add: exact_100_by_2_01)
  have run: "apply_gain 0 1 0x4000A3D7 (heap_of 0 [100]) = Inr (heap_of 0 [201])"
    by (rule example_gain_2_01)
  have k: "(0::nat) < 1" by simp
  have s: "heap_of 0 [100] (0 + 0) = Some 100" by (simp add: heap_of_def)
  from apply_gain_truncates_rounded_product [OF finite_2_01 lo hi run k s]
    finite_2_01 lo hi run k s
  show ?thesis by blast
qed

text \<open>
  C3. The sample 32767 with the finite gain \<^verbatim>\<open>70000.0f\<close> (the pattern \<open>0x4788B800\<close>): the
  product 2293690000 is above 32767, and above the largest \<^verbatim>\<open>int\<close> as well, so the conversion
  to \<^verbatim>\<open>int\<close> that comes before the two \<^verbatim>\<open>if\<close> statements is undefined and the call does
  not store 32767. (\<open>scaled_int_high\<close> and \<open>scaled_int_low\<close> above are the saturation at both
  ends wherever the conversion is defined.)
\<close>

theorem apply_gain_saturation_overflow:
  "f32_is_finite 0x4788B800 \<and> 32767 < exact_product 32767 0x4788B800
   \<and> apply_gain 0 1 0x4788B800 (heap_of 0 [32767]) = Inl FloatToIntOverflow"
proof -
  have gt: "32767 < exact_product 32767 0x4788B800" by (simp add: exact_32767_by_70000)
  have run: "apply_gain 0 1 0x4788B800 (heap_of 0 [32767]) = Inl FloatToIntOverflow"
    by (rule example_gain_70000)
  from finite_70000 gt run show ?thesis by blast
qed

text \<open>
  C4. With gain 1.0 (the pattern \<open>0x3F800000\<close>) a call on a buffer of at least \<open>len\<close>
  elements returns and leaves the whole storage as it was.
\<close>

theorem apply_gain_unit_gain:
  assumes "\<forall>k<len. h (samples + k) \<noteq> None"
  shows "apply_gain samples len 0x3F800000 h = Inr h"
proof -
  from assms have "\<forall>k<len. \<exists>s s'. h (samples + k) = Some s \<and> scale_sample s 0x3F800000 = Inr s'"
    by (auto simp: scale_sample_one)
  then obtain h' where r: "apply_gain samples len 0x3F800000 h = Inr h'"
    using apply_gain_InrI by blast
  have "h' a = h a" for a
  proof (cases "samples \<le> a \<and> a < samples + len")
    case True
    then obtain k where k: "a = samples + k" "k < len"
      by (metis add_diff_inverse_nat less_diff_conv2 not_less add.commute)
    with apply_gain_InrD [OF r] obtain s s' where
      "h (samples + k) = Some s" "scale_sample s 0x3F800000 = Inr s'" "h' (samples + k) = Some s'"
      by blast
    with k show ?thesis by (simp add: scale_sample_one)
  next
    case False
    with apply_gain_InrD [OF r] show ?thesis by auto
  qed
  then have "h' = h" by (rule ext)
  with r show ?thesis by simp
qed

text \<open>A buffer of two samples, one of them negative.\<close>

theorem apply_gain_unit_gain_witness:
  "heap_of 0 [5, - 7] (0 + 0) \<noteq> None \<and> heap_of 0 [5, - 7] (0 + 1) \<noteq> None
   \<and> apply_gain 0 2 0x3F800000 (heap_of 0 [5, - 7]) = Inr (heap_of 0 [5, - 7])"
proof -
  have a: "\<forall>k<2. heap_of 0 [5, - 7] (0 + k) \<noteq> None" by (simp add: heap_of_def)
  from apply_gain_unit_gain [OF a] show ?thesis by (simp add: heap_of_def)
qed

text \<open>
  C5. With gain 0.0 (the pattern \<open>0\<close>) a call on a buffer of at least \<open>len\<close> elements
  returns, and each of the first \<open>len\<close> samples is 0 afterwards, whatever its sign was (the
  product of a negative sample is the negative zero, whose integer part is 0).
\<close>

theorem apply_gain_zero_gain:
  assumes "\<forall>k<len. h (samples + k) \<noteq> None"
  shows "\<exists>h'. apply_gain samples len 0 h = Inr h' \<and> (\<forall>k<len. h' (samples + k) = Some 0)"
proof -
  from assms have "\<forall>k<len. \<exists>s s'. h (samples + k) = Some s \<and> scale_sample s 0 = Inr s'"
    by (auto simp: scale_sample_zero)
  then obtain h' where r: "apply_gain samples len 0 h = Inr h'"
    using apply_gain_InrI by blast
  have "h' (samples + k) = Some 0" if "k < len" for k
  proof -
    from apply_gain_InrD [OF r] that obtain s s' where
      "scale_sample s 0 = Inr s'" "h' (samples + k) = Some s'" by blast
    then show ?thesis by (simp add: scale_sample_zero)
  qed
  with r show ?thesis by blast
qed

text \<open>A buffer of two samples, one of them negative.\<close>

theorem apply_gain_zero_gain_witness:
  "heap_of 0 [5, - 7] (0 + 0) \<noteq> None \<and> heap_of 0 [5, - 7] (0 + 1) \<noteq> None
   \<and> (\<exists>h'. apply_gain 0 2 0 (heap_of 0 [5, - 7]) = Inr h' \<and> h' (0 + 0) = Some 0 \<and> h' (0 + 1) = Some 0)"
proof -
  have a: "\<forall>k<2. heap_of 0 [5, - 7] (0 + k) \<noteq> None" by (simp add: heap_of_def)
  from apply_gain_zero_gain [OF a] obtain h' where
    "apply_gain 0 2 0 (heap_of 0 [5, - 7]) = Inr h'" "\<forall>k<2. h' (0 + k) = Some 0" by blast
  then have "apply_gain 0 2 0 (heap_of 0 [5, - 7]) = Inr h' \<and> h' (0 + 0) = Some 0 \<and> h' (0 + 1) = Some 0"
    by simp
  then show ?thesis by (auto simp: heap_of_def)
qed



text \<open>
  C8. The outcome of a call is a function of the length, the gain and the contents of the
  first \<open>len\<close> elements of the buffer alone: on two storages that agree there (and may differ
  anywhere else) the two calls fail alike or return alike, with equal contents in the first
  \<open>len\<close> elements; and each leaves everything outside these elements as it was. The storage is
  the only state of the model, the function reads and writes nothing else.
\<close>

theorem apply_gain_deterministic:
  assumes "\<forall>k<len. h1 (samples + k) = h2 (samples + k)"
  shows "(\<forall>err. apply_gain samples len gain h1 = Inl err \<longleftrightarrow> apply_gain samples len gain h2 = Inl err)
     \<and> (\<forall>h1' h2'. apply_gain samples len gain h1 = Inr h1' \<and> apply_gain samples len gain h2 = Inr h2' \<longrightarrow>
           (\<forall>k<len. h1' (samples + k) = h2' (samples + k))
           \<and> (\<forall>a. a < samples \<or> samples + len \<le> a \<longrightarrow> h1' a = h1 a \<and> h2' a = h2 a))"
proof -
  let ?R = "\<lambda>(j1, h1') (j2, h2'). j1 = j2 \<and> (\<forall>k<len. h1' (samples + k) = h2' (samples + k))"
  have rel: "rel_sum (=) ?R (loop samples len gain 0 h1) (loop samples len gain 0 h2)"
    using assms by (rule loop_agree)
  have errs: "apply_gain samples len gain h1 = Inl err \<longleftrightarrow> apply_gain samples len gain h2 = Inl err" for err
    using rel by (cases "loop samples len gain 0 h1"; cases "loop samples len gain 0 h2")
      (auto simp: apply_gain_def)
  have vals: "(\<forall>k<len. h1' (samples + k) = h2' (samples + k))
           \<and> (\<forall>a. a < samples \<or> samples + len \<le> a \<longrightarrow> h1' a = h1 a \<and> h2' a = h2 a)"
    if r1: "apply_gain samples len gain h1 = Inr h1'" and r2: "apply_gain samples len gain h2 = Inr h2'"
    for h1' h2'
  proof -
    from r1 r2 rel have "\<forall>k<len. h1' (samples + k) = h2' (samples + k)"
      by (cases "loop samples len gain 0 h1"; cases "loop samples len gain 0 h2")
        (auto simp: apply_gain_def)
    moreover from apply_gain_InrD [OF r1] apply_gain_InrD [OF r2]
    have "\<forall>a. a < samples \<or> samples + len \<le> a \<longrightarrow> h1' a = h1 a \<and> h2' a = h2 a" by blast
    ultimately show ?thesis by blast
  qed
  from errs vals show ?thesis by blast
qed

text \<open>Two storages with the same first two samples and different third ones.\<close>

theorem apply_gain_deterministic_witness:
  "heap_of 0 ([1000, - 1000] @ [32000, - 32000]) (0 + 0) = heap_of 0 ([1000, - 1000] @ [5]) (0 + 0)
   \<and> heap_of 0 ([1000, - 1000] @ [32000, - 32000]) (0 + 1) = heap_of 0 ([1000, - 1000] @ [5]) (0 + 1)
   \<and> heap_of 0 ([1000, - 1000] @ [32000, - 32000]) 2 \<noteq> heap_of 0 ([1000, - 1000] @ [5]) 2
   \<and> apply_gain 0 2 0x40000000 (heap_of 0 ([1000, - 1000] @ [32000, - 32000]))
       = Inr (heap_of 0 ([2000, - 2000] @ [32000, - 32000]))
   \<and> apply_gain 0 2 0x40000000 (heap_of 0 ([1000, - 1000] @ [5])) = Inr (heap_of 0 ([2000, - 2000] @ [5]))
   \<and> heap_of 0 ([2000, - 2000] @ [32000, - 32000]) (0 + 0) = heap_of 0 ([2000, - 2000] @ [5]) (0 + 0)
   \<and> heap_of 0 ([2000, - 2000] @ [32000, - 32000]) (0 + 1) = heap_of 0 ([2000, - 2000] @ [5]) (0 + 1)
   \<and> heap_of 0 ([2000, - 2000] @ [32000, - 32000]) 2 = heap_of 0 ([1000, - 1000] @ [32000, - 32000]) 2
   \<and> heap_of 0 ([2000, - 2000] @ [5]) 2 = heap_of 0 ([1000, - 1000] @ [5]) 2"
proof -
  let ?h1 = "heap_of 0 ([1000, - 1000] @ [32000, - 32000])"
  let ?h2 = "heap_of 0 ([1000, - 1000] @ [5])"
  let ?h1' = "heap_of 0 ([2000, - 2000] @ [32000, - 32000])"
  let ?h2' = "heap_of 0 ([2000, - 2000] @ [5])"
  have a: "\<forall>k<2. ?h1 (0 + k) = ?h2 (0 + k)" by (simp add: heap_of_def nth_Cons')
  have r1: "apply_gain 0 2 0x40000000 ?h1 = Inr ?h1'" by (rule example_gain_two_prefix)
  have r2: "apply_gain 0 2 0x40000000 ?h2 = Inr ?h2'" by (rule example_gain_two_prefix)
  from apply_gain_deterministic [OF a, of "0x40000000"] r1 r2
  have b: "\<forall>k<2. ?h1' (0 + k) = ?h2' (0 + k)"
    and f: "\<forall>a. a < 0 \<or> 0 + 2 \<le> a \<longrightarrow> ?h1' a = ?h1 a \<and> ?h2' a = ?h2 a" by blast+
  from a have a0: "?h1 (0 + 0) = ?h2 (0 + 0)" and a1: "?h1 (0 + 1) = ?h2 (0 + 1)" by simp_all
  from b have b0: "?h1' (0 + 0) = ?h2' (0 + 0)" and b1: "?h1' (0 + 1) = ?h2' (0 + 1)" by simp_all
  from f have f1: "?h1' 2 = ?h1 2" and f2: "?h2' 2 = ?h2 2" by simp_all
  have d: "?h1 2 \<noteq> ?h2 2" by (simp add: heap_of_def)
  from a0 a1 d r1 r2 b0 b1 f1 f2 show ?thesis by blast
qed

text \<open>
  C9. The call terminates after exactly \<open>len\<close> executions of the body, for every gain (finite
  or not) and on every processor: whatever value \<open>u\<close> the conversion instruction delivers where
  the language leaves the conversion undefined, the loop is \<open>len\<close> executions of the body in a
  row, index after index, and on a buffer of \<open>len\<close> elements it returns with the counter at
  \<open>len\<close>. The loop in which an undefined conversion is an error is likewise \<open>len\<close> executions
  of its body, cut short only at such an error; and whenever it returns, it returns with the
  counter at \<open>len\<close> and the same storage as the loop on any processor. (Both loops are total
  functions: their termination is proved with their definitions, by the measure \<open>len - i\<close>.)
\<close>

theorem apply_gain_terminates:
  "loop_on u samples len gain 0 h = iterate_body_on u len samples gain 0 h
   \<and> ((\<forall>k<len. h (samples + k) \<noteq> None) \<longrightarrow>
        (\<exists>h'. loop_on u samples len gain 0 h = Inr (len, h')))
   \<and> loop samples len gain 0 h = iterate_body len samples gain 0 h
   \<and> (\<forall>h'. apply_gain samples len gain h = Inr h' \<longrightarrow>
         loop samples len gain 0 h = Inr (len, h') \<and> loop_on u samples len gain 0 h = Inr (len, h'))"
proof -
  have it: "loop_on u samples len gain 0 h = iterate_body_on u len samples gain 0 h"
    using loop_on_eq_iterate [of 0 len u samples gain h] by simp
  have run: "\<exists>h'. loop_on u samples len gain 0 h = Inr (len, h')"
    if "\<forall>k<len. h (samples + k) \<noteq> None"
  proof -
    from that have "\<exists>j h'. loop_on u samples len gain 0 h = Inr (j, h')"
      by (intro loop_on_InrI) simp
    then obtain j h' where l: "loop_on u samples len gain 0 h = Inr (j, h')" by blast
    from loop_on_InrD [OF l] have "j = len" by simp
    with l show ?thesis by blast
  qed
  have it': "loop samples len gain 0 h = iterate_body len samples gain 0 h"
    using loop_eq_iterate [of 0 len samples gain h] by simp
  have strict: "loop samples len gain 0 h = Inr (len, h') \<and> loop_on u samples len gain 0 h = Inr (len, h')"
    if "apply_gain samples len gain h = Inr h'" for h'
  proof -
    from that obtain j where l: "loop samples len gain 0 h = Inr (j, h')"
      by (auto simp: apply_gain_def split: sum.splits)
    from loop_InrD [OF l] have "j = len" by simp
    with l have l': "loop samples len gain 0 h = Inr (len, h')" by simp
    from l' have "loop_on u samples len gain 0 h = Inr (len, h')" by (rule loop_on_defined)
    with l' show ?thesis by blast
  qed
  from it run it' strict show ?thesis by blast
qed

text \<open>
  Four samples with the gain \<^verbatim>\<open>70000.0f\<close> on x86, where the first conversion is undefined
  and all four iterations are made; and the four samples of the doubling scenario.
\<close>

theorem apply_gain_terminates_witness:
  "f32_is_finite 0x4788B800
   \<and> heap_of 0 [32767, 1, - 1, 0] (0 + 0) \<noteq> None \<and> heap_of 0 [32767, 1, - 1, 0] (0 + 1) \<noteq> None
   \<and> heap_of 0 [32767, 1, - 1, 0] (0 + 2) \<noteq> None \<and> heap_of 0 [32767, 1, - 1, 0] (0 + 3) \<noteq> None
   \<and> loop_on cvttss2si_indefinite 0 4 0x4788B800 0 (heap_of 0 [32767, 1, - 1, 0])
       = iterate_body_on cvttss2si_indefinite 4 0 0x4788B800 0 (heap_of 0 [32767, 1, - 1, 0])
   \<and> (\<exists>h'. loop_on cvttss2si_indefinite 0 4 0x4788B800 0 (heap_of 0 [32767, 1, - 1, 0]) = Inr (4, h'))
   \<and> loop_on cvttss2si_indefinite 0 4 0x4788B800 0 (heap_of 0 [32767, 1, - 1, 0])
       = Inr (4, heap_of 0 [- 32768, 32767, - 32768, 0])
   \<and> apply_gain 0 4 0x40000000 (heap_of 0 [1000, - 1000, 32000, - 32000])
       = Inr (heap_of 0 [2000, - 2000, 32767, - 32768])
   \<and> loop 0 4 0x40000000 0 (heap_of 0 [1000, - 1000, 32000, - 32000])
       = Inr (4, heap_of 0 [2000, - 2000, 32767, - 32768])
   \<and> loop_on cvttss2si_indefinite 0 4 0x40000000 0 (heap_of 0 [1000, - 1000, 32000, - 32000])
       = Inr (4, heap_of 0 [2000, - 2000, 32767, - 32768])"
proof -
  let ?h = "heap_of 0 [32767, 1, - 1, 0]"
  let ?g = "heap_of 0 [1000, - 1000, 32000, - 32000]"
  have a: "\<forall>k<4. ?h (0 + k) \<noteq> None" by (simp add: heap_of_def)
  from a have a0: "?h (0 + 0) \<noteq> None" and a1: "?h (0 + 1) \<noteq> None"
    and a2: "?h (0 + 2) \<noteq> None" and a3: "?h (0 + 3) \<noteq> None" by simp_all
  from apply_gain_terminates [of cvttss2si_indefinite 0 4 "0x4788B800" ?h] a
  have it: "loop_on cvttss2si_indefinite 0 4 0x4788B800 0 ?h
       = iterate_body_on cvttss2si_indefinite 4 0 0x4788B800 0 ?h"
    and ex: "\<exists>h'. loop_on cvttss2si_indefinite 0 4 0x4788B800 0 ?h = Inr (4, h')"
    by blast+
  have r: "apply_gain 0 4 0x40000000 ?g = Inr (heap_of 0 [2000, - 2000, 32767, - 32768])"
    by (rule example_gain_two)
  from apply_gain_terminates [of cvttss2si_indefinite 0 4 "0x40000000" ?g] r
  have s1: "loop 0 4 0x40000000 0 ?g = Inr (4, heap_of 0 [2000, - 2000, 32767, - 32768])"
    and s2: "loop_on cvttss2si_indefinite 0 4 0x40000000 0 ?g
       = Inr (4, heap_of 0 [2000, - 2000, 32767, - 32768])"
    by blast+
  from finite_70000 a0 a1 a2 a3 it ex example_on_gain_70000 r s1 s2 show ?thesis by blast
qed

text \<open>
  C10. The product is formed in binary32: when the gain is finite and the product in
  binary32 \<open>(-1)\<^sup>s\<^sup>g \<sqdot> m \<sqdot> 2\<^sup>q\<close> of the sample at index \<open>k\<close> is finite with an integer part that is
  an \<^verbatim>\<open>int\<close>, it is a binary32 number (\<open>m \<le> 2\<^sup>2\<^sup>4\<close>, \<open>q \<ge> -149\<close>) within half a unit in its last
  place of the product without rounding,
  and the body stores the integer part of the product in binary32, clamped. This is not
  always the integer part of the product without rounding: the sample 1000 with the gain
  \<^verbatim>\<open>2.004f\<close> (the pattern \<open>0x40004189\<close>) is stored as 2004, where the product without
  rounding, \<open>2003.99994...\<close>, has the integer part 2003.
\<close>

theorem body_truncates_binary32_product:
  "(f32_is_finite gain \<and> h (samples + k) = Some s \<and> product32 s gain = FFinite sg m q
      \<and> - 2147483648 \<le> truncate_toward_zero (finite_value sg m q)
      \<and> truncate_toward_zero (finite_value sg m q) \<le> 2147483647 \<longrightarrow>
      m \<le> 2 ^ 24 \<and> - 149 \<le> q
      \<and> \<bar>finite_value sg m q - exact_product s gain\<bar> \<le> 2 powi (q - 1)
      \<and> body samples gain k h
          = Inr (h(samples + k \<mapsto> word_of_int (clamp16 (truncate_toward_zero (finite_value sg m q))))))
   \<and> f32_is_finite 0x40004189
   \<and> body 0 0x40004189 0 (heap_of 0 [1000]) = Inr ((heap_of 0 [1000])(0 \<mapsto> 2004))
   \<and> word_of_int (clamp16 (truncate_toward_zero (exact_product 1000 0x40004189))) = (2003 :: 16 word)"
proof -
  have gen: "m \<le> 2 ^ 24 \<and> - 149 \<le> q
      \<and> \<bar>finite_value sg m q - exact_product s gain\<bar> \<le> 2 powi (q - 1)
      \<and> body samples gain k h
          = Inr (h(samples + k \<mapsto> word_of_int (clamp16 (truncate_toward_zero (finite_value sg m q)))))"
    if fin: "f32_is_finite gain" and s: "h (samples + k) = Some s"
      and p: "product32 s gain = FFinite sg m q"
      and lo: "- 2147483648 \<le> truncate_toward_zero (finite_value sg m q)"
      and hi: "truncate_toward_zero (finite_value sg m q) \<le> 2147483647"
  proof -
    from p lo hi have "scaled_int s gain = Inr (clamp16 (truncate_toward_zero (finite_value sg m q)))"
      by (rule scaled_int_finite)
    then have "scale_sample s gain = Inr (word_of_int (clamp16 (truncate_toward_zero (finite_value sg m q))))"
      by (simp add: scale_sample_def)
    with s have "body samples gain k h
          = Inr (h(samples + k \<mapsto> word_of_int (clamp16 (truncate_toward_zero (finite_value sg m q)))))"
      by (simp add: body_def)
    with product32_nearest [OF fin p] product32_representable [OF fin p] show ?thesis by blast
  qed
  have b: "body 0 0x40004189 0 (heap_of 0 [1000]) = Inr ((heap_of 0 [1000])(0 \<mapsto> 2004))"
    by (simp add: body_def heap_of_def scale_1000_by_2_004)
  have t: "word_of_int (clamp16 (truncate_toward_zero (exact_product 1000 0x40004189))) = (2003 :: 16 word)"
    by (simp add: trunc_1000_by_2_004 clamp16_def)
  from gen finite_2_004 b t show ?thesis by blast
qed

text \<open>The sample 100 with the gain \<^verbatim>\<open>2.01f\<close>, whose product in binary32 is 201.\<close>

theorem body_truncates_binary32_product_witness:
  "f32_is_finite 0x4000A3D7 \<and> heap_of 0 [100] (0 + 0) = Some 100
   \<and> product32 100 0x4000A3D7 = FFinite False 13172736 (- 16)
   \<and> - 2147483648 \<le> truncate_toward_zero (finite_value False 13172736 (- 16))
   \<and> truncate_toward_zero (finite_value False 13172736 (- 16)) \<le> 2147483647
   \<and> (13172736 :: nat) \<le> 2 ^ 24 \<and> - 149 \<le> (- 16 :: int)
   \<and> \<bar>finite_value False 13172736 (- 16) - exact_product 100 0x4000A3D7\<bar> \<le> 2 powi (- 16 - 1)
   \<and> body 0 0x4000A3D7 0 (heap_of 0 [100])
       = Inr ((heap_of 0 [100])(0 + 0 \<mapsto> word_of_int (clamp16 (truncate_toward_zero (finite_value False 13172736 (- 16))))))"
proof -
  have s: "heap_of 0 [100] (0 + 0) = Some 100" by (simp add: heap_of_def)
  have tr: "truncate_toward_zero (finite_value False 13172736 (- 16)) = 201"
    by (simp add: truncate_finite_value trunc_mag_def)
  have lo: "- 2147483648 \<le> truncate_toward_zero (finite_value False 13172736 (- 16))"
    by (simp add: tr)
  have hi: "truncate_toward_zero (finite_value False 13172736 (- 16)) \<le> 2147483647"
    by (simp add: tr)
  from body_truncates_binary32_product [of "0x4000A3D7" "heap_of 0 [100]" 0 0 100 False 13172736 "- 16"]
    finite_2_01 s product_100_by_2_01 lo hi
  show ?thesis by blast
qed

end
